theory Spec2Isabelle
  imports Complex_Main "HOL-Library.Sublist" "HOL-Library.AList"
begin

section \<open>Strings and characters\<close>

text \<open>
  The program is \<^verbatim>\<open>kerala_rag_demo.py\<close>: a chunker, a lexical scorer, a retriever and an
  answer assembler held in the class \<^verbatim>\<open>SimpleRAGSystem\<close>.

  Python strings are modelled as \<^typ>\<open>string\<close>, a list of 8-bit characters read as ASCII
  text. The character classes of \<^verbatim>\<open>re\<close> and of \<^verbatim>\<open>str\<close> are the ASCII ones: a character
  above 127 is neither a word character, nor white space, nor a digit, and \<^verbatim>\<open>lower\<close>
  leaves it alone. Python's further Unicode classes are outside this model.
\<close>

definition NL :: char where
  "NL = CHR 0x0A"

definition CR :: char where
  "CR = CHR 0x0D"

definition is_upper :: "char \<Rightarrow> bool" where
  "is_upper c = (let n = (of_char c :: nat) in 65 \<le> n \<and> n \<le> 90)"

definition is_lower :: "char \<Rightarrow> bool" where
  "is_lower c = (let n = (of_char c :: nat) in 97 \<le> n \<and> n \<le> 122)"

definition is_digit :: "char \<Rightarrow> bool" where
  "is_digit c = (let n = (of_char c :: nat) in 48 \<le> n \<and> n \<le> 57)"

text \<open>\<^verbatim>\<open>\s\<close> and \<^verbatim>\<open>str.strip()\<close>: tab, line feed, vertical tab, form feed, carriage
  return, the four separators 28 to 31, and the space.\<close>

definition is_space :: "char \<Rightarrow> bool" where
  "is_space c = (let n = (of_char c :: nat) in (9 \<le> n \<and> n \<le> 13) \<or> (28 \<le> n \<and> n \<le> 32))"

text \<open>\<^verbatim>\<open>\w\<close>: letters, digits and the underscore.\<close>

definition is_word :: "char \<Rightarrow> bool" where
  "is_word c = (is_lower c \<or> is_upper c \<or> is_digit c \<or> c = CHR ''_'')"

text \<open>The class \<^verbatim>\<open>[a-z0-9]\<close> of \<^verbatim>\<open>_slugify\<close>.\<close>

definition is_slug_char :: "char \<Rightarrow> bool" where
  "is_slug_char c = (is_lower c \<or> is_digit c)"

definition lower_char :: "char \<Rightarrow> char" where
  "lower_char c = (if is_upper c then char_of (of_char c + (32::nat)) else c)"

text \<open>\<^verbatim>\<open>str.lower()\<close>.\<close>

definition lower :: "string \<Rightarrow> string" where
  "lower s = map lower_char s"

text \<open>\<^verbatim>\<open>s.strip(chars)\<close> with the characters to remove given as a predicate, and
  \<^verbatim>\<open>s.strip()\<close>, which removes white space.\<close>

definition strip_by :: "(char \<Rightarrow> bool) \<Rightarrow> string \<Rightarrow> string" where
  "strip_by P s = rev (dropWhile P (rev (dropWhile P s)))"

definition strip :: "string \<Rightarrow> string" where
  "strip s = strip_by is_space s"

section \<open>Slugs\<close>

text \<open>\<^verbatim>\<open>re.sub(r'[^a-z0-9]+', '_', s)\<close>: every maximal run of characters outside
  \<^verbatim>\<open>[a-z0-9]\<close> becomes one underscore.\<close>

function re_sub_nonslug :: "string \<Rightarrow> string" where
  "re_sub_nonslug [] = []"
| "re_sub_nonslug (c # cs) =
     (if is_slug_char c then c # re_sub_nonslug cs
      else CHR ''_'' # re_sub_nonslug (dropWhile (\<lambda>x. \<not> is_slug_char x) cs))"
  by pat_completeness auto
termination
  by (relation "measure length") (auto simp: less_Suc_eq_le length_dropWhile_le)

text \<open>\<^verbatim>\<open>re.sub(r'_{2,}', '_', s)\<close>: every run of two or more underscores becomes one.\<close>

function re_sub_underscores :: "string \<Rightarrow> string" where
  "re_sub_underscores [] = []"
| "re_sub_underscores [c] = [c]"
| "re_sub_underscores (c # d # cs) =
     (if c = CHR ''_'' \<and> d = CHR ''_''
      then CHR ''_'' # re_sub_underscores (dropWhile (\<lambda>x. x = CHR ''_'') cs)
      else c # re_sub_underscores (d # cs))"
  by pat_completeness auto
termination
  by (relation "measure length") (auto simp: less_Suc_eq_le intro: le_SucI length_dropWhile_le)

text \<open>\<^verbatim>\<open>_slugify\<close>.\<close>

definition slugify :: "string \<Rightarrow> string" where
  "slugify text =
     (let s = lower text;
          s = re_sub_nonslug s;
          s = re_sub_underscores s
      in strip_by (\<lambda>c. c = CHR ''_'') s)"

section \<open>Values, chunks and the system state\<close>

text \<open>The scalar values a metadata mapping or a tabular record holds (\<^verbatim>\<open>Any\<close> in the
  source): strings, integers, booleans and \<^verbatim>\<open>None\<close>.\<close>

datatype pyval = VStr string | VInt int | VBool bool | VNone

text \<open>A \<^verbatim>\<open>dict\<close> with string keys, in insertion order. The keys of a dictionary are
  pairwise distinct; \<^const>\<open>AList.update\<close> is the assignment \<^verbatim>\<open>d[k] = v\<close>, which keeps the
  place of a key already present and appends a new one.\<close>

type_synonym pydict = "(string \<times> pyval) list"

datatype py_error = KeyError | TypeError | AttributeError | IndexError

definition digit_char :: "nat \<Rightarrow> char" where
  "digit_char d = char_of (48 + d)"

text \<open>\<^verbatim>\<open>str(n)\<close> for a natural number and for an integer.\<close>

fun str_nat :: "nat \<Rightarrow> string" where
  "str_nat n = (if n < 10 then [digit_char n] else str_nat (n div 10) @ [digit_char (n mod 10)])"

declare str_nat.simps [simp del]

definition str_int :: "int \<Rightarrow> string" where
  "str_int i = (if i < 0 then CHR ''-'' # str_nat (nat (- i)) else str_nat (nat i))"

text \<open>\<^verbatim>\<open>str(v)\<close>, which is also what an f-string writes for \<^verbatim>\<open>{v}\<close>.\<close>

fun py_str :: "pyval \<Rightarrow> string" where
  "py_str (VStr s) = s"
| "py_str (VInt i) = str_int i"
| "py_str (VBool b) = (if b then ''True'' else ''False'')"
| "py_str VNone = ''None''"

text \<open>Truth value of a value, as \<^verbatim>\<open>or\<close> tests it.\<close>

fun truthy :: "pyval \<Rightarrow> bool" where
  "truthy (VStr s) = (s \<noteq> [])"
| "truthy (VInt i) = (i \<noteq> 0)"
| "truthy (VBool b) = b"
| "truthy VNone = False"

text \<open>\<^verbatim>\<open>d.get(k, default)\<close>.\<close>

definition dict_get :: "pydict \<Rightarrow> string \<Rightarrow> pyval \<Rightarrow> pyval" where
  "dict_get d k dflt = (case map_of d k of Some v \<Rightarrow> v | None \<Rightarrow> dflt)"

text \<open>\<^verbatim>\<open>{**a, **b}\<close>.\<close>

definition dict_merge :: "pydict \<Rightarrow> pydict \<Rightarrow> pydict" where
  "dict_merge a b = fold (\<lambda>(k, v) m. AList.update k v m) b a"

text \<open>\<^verbatim>\<open>sep.join(xs)\<close>.\<close>

fun join :: "string \<Rightarrow> string list \<Rightarrow> string" where
  "join sep [] = []"
| "join sep [x] = x"
| "join sep (x # y # ys) = x @ sep @ join sep (y # ys)"

text \<open>\<^verbatim>\<open>enumerate(xs, i)\<close>.\<close>

fun enumerate_from :: "nat \<Rightarrow> 'a list \<Rightarrow> (nat \<times> 'a) list" where
  "enumerate_from i [] = []"
| "enumerate_from i (x # xs) = (i, x) # enumerate_from (Suc i) xs"

text \<open>The slice \<^verbatim>\<open>xs[:k]\<close> for an integer \<^verbatim>\<open>k\<close>: a negative \<^verbatim>\<open>k\<close> counts from the end.\<close>

definition slice_to :: "int \<Rightarrow> 'a list \<Rightarrow> 'a list" where
  "slice_to k xs = (if 0 \<le> k then take (nat k) xs else take (length xs - nat (- k)) xs)"

record Citation =
  doc_id :: string
  section_id :: string
  snippet :: string

record Document =
  doc_id :: string
  section_id :: string
  content :: string
  metadata :: pydict

text \<open>The instance state of \<^verbatim>\<open>SimpleRAGSystem\<close>, and its state after \<^verbatim>\<open>__init__\<close>.\<close>

record rag =
  documents :: "Document list"
  corpus_loaded :: bool

definition init :: rag where
  "init = \<lparr>documents = [], corpus_loaded = False\<rparr>"

text \<open>An input document of \<^verbatim>\<open>load_corpus\<close> is a dictionary; each of its four keys may be
  missing. Its content is a string, or a list of records for a tabular document.\<close>

datatype doc_content = Text string | Rows "pydict list"

record raw_doc =
  d_id :: "string option"
  d_type :: "string option"
  d_content :: "doc_content option"
  d_metadata :: "pydict option"

section \<open>Tokenizer\<close>

text \<open>\<^verbatim>\<open>re.findall(r'\b\w+\b', s)\<close>: the maximal runs of word characters, in order.\<close>

function word_runs :: "string \<Rightarrow> string list" where
  "word_runs [] = []"
| "word_runs (c # cs) =
     (if is_word c then (c # takeWhile is_word cs) # word_runs (dropWhile is_word cs)
      else word_runs cs)"
  by pat_completeness auto
termination
  by (relation "measure length") (auto simp: less_Suc_eq_le length_dropWhile_le)

definition tokenize :: "string \<Rightarrow> string list" where
  "tokenize text = word_runs (lower text)"

section \<open>Chunkers\<close>

subsection \<open>Markdown\<close>

text \<open>The pattern \<^verbatim>\<open>\r?\n##\s+\<close> tried at the start of a string: the rest of the string
  after the match, if it matches. The white space after \<^verbatim>\<open>##\<close> is taken greedily.\<close>

definition heading_at :: "string \<Rightarrow> string option" where
  "heading_at s =
     (let t = (case s of [] \<Rightarrow> [] | c # cs \<Rightarrow> if c = CR then cs else s)
      in case t of
           n # a # b # w # rest \<Rightarrow>
             if n = NL \<and> a = CHR ''#'' \<and> b = CHR ''#'' \<and> is_space w
             then Some (dropWhile is_space rest) else None
         | _ \<Rightarrow> None)"

lemma heading_at_shorter: "heading_at s = Some r \<Longrightarrow> length r < length s"
  by (auto simp: heading_at_def Let_def split: list.splits if_splits
      intro!: le_imp_less_Suc le_SucI length_dropWhile_le)

text \<open>\<^verbatim>\<open>re.split(r'\r?\n##\s+', content)\<close>, scanning from the left; \<^verbatim>\<open>acc\<close> holds the
  characters of the current piece, last first.\<close>

function split_headings :: "string \<Rightarrow> string \<Rightarrow> string list" where
  "split_headings acc s =
     (case heading_at s of
        Some rest \<Rightarrow> rev acc # split_headings [] rest
      | None \<Rightarrow> (case s of [] \<Rightarrow> [rev acc] | c # cs \<Rightarrow> split_headings (c # acc) cs))"
  by pat_completeness auto
termination
  by (relation "measure (\<lambda>(acc, s). length s)") (auto simp: heading_at_shorter)

declare split_headings.simps [simp del]

text \<open>\<^verbatim>\<open>section.split('\n', 1)\<close>: the first line, and the rest if there is a line feed.\<close>

definition split_first_line :: "string \<Rightarrow> string \<times> string option" where
  "split_first_line s =
     (let rest = dropWhile (\<lambda>c. c \<noteq> NL) s
      in (takeWhile (\<lambda>c. c \<noteq> NL) s, if rest = [] then None else Some (tl rest)))"

text \<open>One pass of the loop of \<^verbatim>\<open>_chunk_markdown\<close> over \<^verbatim>\<open>enumerate(sections[1:], 1)\<close>.\<close>

definition markdown_section :: "string \<Rightarrow> pydict \<Rightarrow> nat \<times> string \<Rightarrow> Document" where
  "markdown_section did meta p =
     (case p of (i, sec) \<Rightarrow>
        let lines = split_first_line sec;
            section_title = strip (fst lines);
            section_content = (case snd lines of Some l \<Rightarrow> strip l | None \<Rightarrow> [])
        in \<lparr>doc_id = did,
            section_id = ''section_'' @ str_nat i @ ''_'' @ slugify section_title,
            content = ''## '' @ section_title @ [NL, NL] @ section_content,
            metadata = AList.update ''section_title'' (VStr section_title) meta\<rparr>)"

text \<open>\<^verbatim>\<open>_chunk_markdown\<close>, with \<^verbatim>\<open>did\<close>, \<^verbatim>\<open>body\<close> and \<^verbatim>\<open>meta\<close> for its parameters
  \<^verbatim>\<open>doc_id\<close>, \<^verbatim>\<open>content\<close> and \<^verbatim>\<open>metadata\<close>. The list \<^verbatim>\<open>re.split\<close> returns is never
  empty, so \<^verbatim>\<open>sections[0]\<close> is always read.\<close>

definition chunk_markdown :: "string \<Rightarrow> string \<Rightarrow> pydict \<Rightarrow> Document list" where
  "chunk_markdown did body meta =
     (let sections = split_headings [] body;
          intro = strip (hd sections);
          chunks = (if intro \<noteq> []
                    then [\<lparr>doc_id = did, section_id = ''intro'', content = intro,
                           metadata = meta\<rparr>]
                    else [])
      in chunks @ map (markdown_section did meta) (enumerate_from 1 (tl sections)))"

subsection \<open>FAQ\<close>

text \<open>The pattern of \<^verbatim>\<open>_chunk_faq\<close> is
  \<^verbatim>\<open>##\s*\d+\.\s*(.+?)\n\n(.*?)(?=\n##\s*\d+\.|\Z)\<close>, compiled with \<^verbatim>\<open>re.S\<close>, so
  that the dot also matches a line feed. Its parts follow, each tried at the start of
  a string.\<close>

text \<open>\<^verbatim>\<open>##\s*\d+\.\<close>: the rest of the string after the full stop. The greedy
  \<^verbatim>\<open>\s*\<close> and \<^verbatim>\<open>\d+\<close> cannot match with fewer characters, since a digit or a full
  stop has to follow them.\<close>

definition faq_head_at :: "string \<Rightarrow> string option" where
  "faq_head_at s =
     (case s of
        a # b # s1 \<Rightarrow>
          if a = CHR ''#'' \<and> b = CHR ''#''
          then (let s2 = dropWhile is_space s1
                in if takeWhile is_digit s2 = [] then None
                   else (case dropWhile is_digit s2 of
                           c # s4 \<Rightarrow> if c = CHR ''.'' then Some s4 else None
                         | [] \<Rightarrow> None))
          else None
      | _ \<Rightarrow> None)"

text \<open>The lookahead \<^verbatim>\<open>\n##\s*\d+\.\<close>.\<close>

definition next_faq_heading :: "string \<Rightarrow> bool" where
  "next_faq_heading s = (case s of [] \<Rightarrow> False | n # t \<Rightarrow> n = NL \<and> faq_head_at t \<noteq> None)"

text \<open>The first \<^verbatim>\<open>\n\n\<close> of a string: the text before it and the text after it.\<close>

fun split_blank :: "string \<Rightarrow> (string \<times> string) option" where
  "split_blank [] = None"
| "split_blank [c] = None"
| "split_blank (c # d # cs) =
     (if c = NL \<and> d = NL then Some ([], cs)
      else map_option (\<lambda>(q, r). (c # q, r)) (split_blank (d # cs)))"

text \<open>\<^verbatim>\<open>(.+?)\n\n\<close>: the lazy group takes one character, whatever it is, and then as
  few more as reach a \<^verbatim>\<open>\n\n\<close>.\<close>

definition question_at :: "string \<Rightarrow> (string \<times> string) option" where
  "question_at s =
     (case s of [] \<Rightarrow> None | c # cs \<Rightarrow> map_option (\<lambda>(q, r). (c # q, r)) (split_blank cs))"

text \<open>\<^verbatim>\<open>\s*(.+?)\n\n\<close>: the greedy \<^verbatim>\<open>\s*\<close> first takes all \<^verbatim>\<open>k\<close> white-space
  characters and gives them back one by one until the rest matches.\<close>

fun question_after_ws :: "nat \<Rightarrow> string \<Rightarrow> (string \<times> string) option" where
  "question_after_ws 0 s = question_at s"
| "question_after_ws (Suc k) s =
     (case question_at (drop (Suc k) s) of
        Some r \<Rightarrow> Some r
      | None \<Rightarrow> question_after_ws k s)"

text \<open>\<^verbatim>\<open>(.*?)(?=\n##\s*\d+\.|\Z)\<close>: the answer runs to the next numbered heading or to
  the end of the string; the heading is not consumed.\<close>

fun answer_at :: "string \<Rightarrow> string \<times> string" where
  "answer_at [] = ([], [])"
| "answer_at (c # cs) =
     (if next_faq_heading (c # cs) then ([], c # cs)
      else (case answer_at cs of (a, r) \<Rightarrow> (c # a, r)))"

text \<open>The whole pattern: the two groups and the rest of the string after the match.\<close>

definition faq_match_at :: "string \<Rightarrow> (string \<times> string \<times> string) option" where
  "faq_match_at s =
     (case faq_head_at s of
        None \<Rightarrow> None
      | Some s4 \<Rightarrow>
          (case question_after_ws (length (takeWhile is_space s4)) s4 of
             None \<Rightarrow> None
           | Some (q, s5) \<Rightarrow> (case answer_at s5 of (a, r) \<Rightarrow> Some (q, a, r))))"

lemma split_blank_shorter: "split_blank s = Some (q, r) \<Longrightarrow> length r < length s"
  by (induction s arbitrary: q rule: split_blank.induct) (auto split: if_splits)

lemma question_at_shorter: "question_at s = Some (q, r) \<Longrightarrow> length r < length s"
  by (auto simp: question_at_def split: list.splits dest: split_blank_shorter)

lemma question_after_ws_shorter:
  "question_after_ws k s = Some (q, r) \<Longrightarrow> length r < length s"
proof (induction k)
  case 0
  then show ?case by (simp add: question_at_shorter)
next
  case (Suc k)
  show ?case
  proof (cases "question_at (drop (Suc k) s)")
    case None
    with Suc show ?thesis by simp
  next
    case (Some p)
    with Suc.prems have "question_at (drop (Suc k) s) = Some (q, r)" by simp
    from question_at_shorter [OF this] show ?thesis by simp
  qed
qed

lemma answer_at_shorter: "answer_at s = (a, r) \<Longrightarrow> length r \<le> length s"
  by (induction s arbitrary: a) (auto split: if_splits prod.splits)

lemma faq_head_at_shorter: "faq_head_at s = Some r \<Longrightarrow> length r < length s"
proof -
  assume a: "faq_head_at s = Some r"
  then obtain s1 where s: "s = CHR ''#'' # CHR ''#'' # s1"
    by (auto simp: faq_head_at_def split: list.splits if_splits)
  let ?s2 = "dropWhile is_space s1"
  from a s obtain c where "dropWhile is_digit ?s2 = c # r"
    by (auto simp: faq_head_at_def Let_def split: list.splits if_splits)
  then have "length r < length (dropWhile is_digit ?s2)" by simp
  also have "\<dots> \<le> length ?s2" by (rule length_dropWhile_le)
  also have "\<dots> \<le> length s1" by (rule length_dropWhile_le)
  finally show ?thesis using s by simp
qed

lemma faq_match_at_shorter: "faq_match_at s = Some (q, a, r) \<Longrightarrow> length r < length s"
proof -
  assume m: "faq_match_at s = Some (q, a, r)"
  then obtain s4 where h: "faq_head_at s = Some s4"
    by (auto simp: faq_match_at_def split: option.splits)
  with m obtain s5 where
    qq: "question_after_ws (length (takeWhile is_space s4)) s4 = Some (q, s5)"
    and aa: "answer_at s5 = (a, r)"
    by (auto simp: faq_match_at_def split: option.splits prod.splits)
  have "length r \<le> length s5" using aa by (rule answer_at_shorter)
  also have "\<dots> < length s4" using qq by (rule question_after_ws_shorter)
  also have "\<dots> < length s" using h by (rule faq_head_at_shorter)
  finally show ?thesis .
qed

text \<open>\<^verbatim>\<open>pattern.findall(content)\<close>: the matches from left to right, each search starting
  where the last match ended, or one character further after a failure.\<close>

function findall_faq :: "string \<Rightarrow> (string \<times> string) list" where
  "findall_faq [] = []"
| "findall_faq (c # cs) =
     (case faq_match_at (c # cs) of
        Some (q, a, r) \<Rightarrow> (q, a) # findall_faq r
      | None \<Rightarrow> findall_faq cs)"
  by pat_completeness auto
termination
  by (relation "measure length") (auto dest: faq_match_at_shorter)

declare findall_faq.simps [simp del]

text \<open>One pass of the loop of \<^verbatim>\<open>_chunk_faq\<close> over \<^verbatim>\<open>enumerate(matches, 1)\<close>.\<close>

definition faq_entry :: "string \<Rightarrow> pydict \<Rightarrow> nat \<times> string \<times> string \<Rightarrow> Document" where
  "faq_entry did meta p =
     (case p of (i, question, answer) \<Rightarrow>
        \<lparr>doc_id = did,
         section_id = ''faq_'' @ str_nat i @ ''_'' @ slugify question,
         content = ''Q: '' @ strip question @ [NL, NL] @ ''A: '' @ strip answer,
         metadata = AList.update ''question'' (VStr (strip question))
                      (AList.update ''faq_number'' (VInt (int i)) meta)\<rparr>)"

text \<open>\<^verbatim>\<open>_chunk_faq\<close>.\<close>

definition chunk_faq :: "string \<Rightarrow> string \<Rightarrow> pydict \<Rightarrow> Document list" where
  "chunk_faq did body meta =
     (let matches = findall_faq body
      in if matches = []
         then [\<lparr>doc_id = did, section_id = ''faq_all'', content = body, metadata = meta\<rparr>]
         else map (faq_entry did meta) (enumerate_from 1 matches))"

subsection \<open>Tabular records\<close>

text \<open>\<^verbatim>\<open>_format_product_row\<close>.\<close>

definition format_product_row :: "pydict \<Rightarrow> string" where
  "format_product_row row =
     join [NL]
       [''Product: '' @ py_str (dict_get row ''name'' (VStr ''Unknown'')),
        ''ID: '' @ py_str (dict_get row ''product_id'' (VStr ''N/A'')),
        ''Category: '' @ py_str (dict_get row ''category'' (VStr ''N/A'')),
        ''Format: '' @ py_str (dict_get row ''format'' (VStr ''N/A'')),
        ''Target concerns: '' @ py_str (dict_get row ''target_concerns'' (VStr ''N/A'')),
        ''Key herbs: '' @ py_str (dict_get row ''key_herbs'' (VStr ''N/A'')),
        ''Contraindications: '' @ py_str (dict_get row ''contraindications_short'' (VStr ''N/A'')),
        ''Tags: '' @ py_str (dict_get row ''internal_tags'' (VStr ''N/A''))]"

text \<open>\<^verbatim>\<open>row.get('product_id') or str(hash(row.get('name', '')))\<close>. Python's built-in
  \<^verbatim>\<open>hash\<close> is not part of the program: it is the parameter \<^verbatim>\<open>h\<close>. For strings it is
  salted anew in every interpreter process, so \<^verbatim>\<open>h\<close> is fixed within one process
  only.\<close>

definition product_key :: "(pyval \<Rightarrow> int) \<Rightarrow> pydict \<Rightarrow> pyval" where
  "product_key h row =
     (let v = dict_get row ''product_id'' VNone
      in if truthy v then v else VStr (str_int (h (dict_get row ''name'' (VStr [])))))"

definition csv_row :: "(pyval \<Rightarrow> int) \<Rightarrow> string \<Rightarrow> pydict \<Rightarrow> pydict \<Rightarrow> Document" where
  "csv_row h did meta row =
     (let formatted = format_product_row row;
          prod_id = product_key h row
      in \<lparr>doc_id = did,
          section_id = ''product_'' @ py_str prod_id,
          content = formatted,
          metadata = dict_merge meta row\<rparr>)"

text \<open>\<^verbatim>\<open>_chunk_csv\<close>.\<close>

definition chunk_csv :: "(pyval \<Rightarrow> int) \<Rightarrow> string \<Rightarrow> pydict list \<Rightarrow> pydict \<Rightarrow> Document list" where
  "chunk_csv h did rows meta = map (csv_row h did meta) rows"

section \<open>Loading\<close>

text \<open>The body of the loop of \<^verbatim>\<open>load_corpus\<close>: the chunks of one input document, or the
  exception raised. \<^verbatim>\<open>doc['id']\<close> and \<^verbatim>\<open>doc['content']\<close> raise \<^verbatim>\<open>KeyError\<close> on a
  missing key. The regular expressions raise \<^verbatim>\<open>TypeError\<close> on a list; the tabular
  chunker iterates over a string character by character and raises
  \<^verbatim>\<open>AttributeError\<close> at the first one. In the last branch the source stores the content
  as it is; a list there is outside the declared type \<^verbatim>\<open>content: str\<close> of
  \<^verbatim>\<open>Document\<close> and makes every later \<^verbatim>\<open>retrieve\<close> raise, so the model refuses it here.\<close>

definition chunk_document :: "(pyval \<Rightarrow> int) \<Rightarrow> raw_doc \<Rightarrow> py_error + Document list" where
  "chunk_document h doc =
     (let doc_type = (case d_type doc of Some t \<Rightarrow> t | None \<Rightarrow> ''text'')
      in case d_id doc of
           None \<Rightarrow> Inl KeyError
         | Some did \<Rightarrow>
             (case d_content doc of
                None \<Rightarrow> Inl KeyError
              | Some c \<Rightarrow>
                  let meta = (case d_metadata doc of Some m \<Rightarrow> m | None \<Rightarrow> [])
                  in if doc_type = ''markdown''
                     then (case c of Text s \<Rightarrow> Inr (chunk_markdown did s meta)
                                   | Rows rs \<Rightarrow> Inl TypeError)
                     else if doc_type = ''faq''
                     then (case c of Text s \<Rightarrow> Inr (chunk_faq did s meta)
                                   | Rows rs \<Rightarrow> Inl TypeError)
                     else if doc_type = ''csv''
                     then (case c of Rows rs \<Rightarrow> Inr (chunk_csv h did rs meta)
                                   | Text s \<Rightarrow> if s = [] then Inr [] else Inl AttributeError)
                     else (case c of Text s \<Rightarrow>
                                       Inr [\<lparr>doc_id = did, section_id = ''main'', content = s,
                                             metadata = meta\<rparr>]
                                   | Rows rs \<Rightarrow> Inl TypeError)))"

text \<open>\<^verbatim>\<open>load_corpus\<close>: the state after the call, and the exception if one was raised. An
  exception leaves the chunks of the documents before it in the store and does not
  set the flag.\<close>

fun load_corpus :: "(pyval \<Rightarrow> int) \<Rightarrow> rag \<Rightarrow> raw_doc list \<Rightarrow> rag \<times> py_error option" where
  "load_corpus h st [] = (st\<lparr>corpus_loaded := True\<rparr>, None)"
| "load_corpus h st (doc # docs) =
     (case chunk_document h doc of
        Inl e \<Rightarrow> (st, Some e)
      | Inr chunks \<Rightarrow> load_corpus h (st\<lparr>documents := documents st @ chunks\<rparr>) docs)"

section \<open>Floating-point numbers\<close>

text \<open>Python's \<^verbatim>\<open>float\<close> is the IEEE 754 double. Every finite double is a rational
  number, and an arithmetic operation returns the exact result rounded to the nearest
  double, a tie going to the even significand. Scores are therefore rational numbers,
  and \<^verbatim>\<open>round_double\<close> is the rounding: 53 significant bits, and below \<^verbatim>\<open>2 ** -1022\<close>
  the fixed spacing \<^verbatim>\<open>2 ** -1074\<close> of the subnormal numbers. Overflow is not modelled: a
  score of \<^verbatim>\<open>2 ** 1024\<close> would need more than \<^verbatim>\<open>2 ** 1000\<close> query terms.\<close>

text \<open>The number of binary digits of a positive integer.\<close>

function bit_length :: "int \<Rightarrow> int" where
  "bit_length p = (if p \<le> 0 then 0 else 1 + bit_length (p div 2))"
  by pat_completeness auto
termination
  by (relation "measure nat") auto

declare bit_length.simps [simp del]

definition pow2 :: "int \<Rightarrow> rat" where
  "pow2 k = (if 0 \<le> k then 2 ^ nat k else 1 / 2 ^ nat (- k))"

text \<open>The binary exponent of a positive rational \<^verbatim>\<open>x\<close>: the \<^verbatim>\<open>e\<close> with
  \<^verbatim>\<open>2 ** e <= x < 2 ** (e + 1)\<close>.\<close>

definition ilog2 :: "rat \<Rightarrow> int" where
  "ilog2 x =
     (case quotient_of x of
        (p, q) \<Rightarrow>
          let d = bit_length p - bit_length q
          in if pow2 d \<le> x then d else d - 1)"

definition round_half_even :: "rat \<Rightarrow> int" where
  "round_half_even x =
     (let m = \<lfloor>x\<rfloor>; f = x - of_int m
      in if f < 1 / 2 then m
         else if 1 / 2 < f then m + 1
         else if even m then m else m + 1)"

definition round_double :: "rat \<Rightarrow> rat" where
  "round_double x =
     (if x = 0 then 0
      else
        let e = max (ilog2 \<bar>x\<bar>) (- 1022);
            q = pow2 (e - 52)
        in sgn x * of_int (round_half_even (\<bar>x\<bar> / q)) * q)"

text \<open>\<^verbatim>\<open>x + y\<close> and \<^verbatim>\<open>x * y\<close> on floats, and \<^verbatim>\<open>a / b\<close> on two integers, which Python
  rounds once from the exact quotient. The two divisions of \<^verbatim>\<open>_score_document\<close> are
  guarded against a zero divisor.\<close>

definition fadd :: "rat \<Rightarrow> rat \<Rightarrow> rat" where
  "fadd x y = round_double (x + y)"

definition fmul :: "rat \<Rightarrow> rat \<Rightarrow> rat" where
  "fmul x y = round_double (x * y)"

definition int_truediv :: "nat \<Rightarrow> nat \<Rightarrow> rat" where
  "int_truediv a b = round_double (of_nat a / of_nat b)"

section \<open>Scoring and retrieval\<close>

text \<open>\<^verbatim>\<open>_score_document\<close>. \<^verbatim>\<open>x in s\<close> on strings is \<^const>\<open>sublist\<close>.\<close>

definition score_document :: "Document \<Rightarrow> string list \<Rightarrow> string \<Rightarrow> rat" where
  "score_document doc query_terms query_raw =
     (let doc_text = lower (content doc);
          doc_tokens = tokenize doc_text
      in if doc_tokens = [] then 0
         else
           let score = fold (\<lambda>term score.
                         let tf = count_list doc_tokens term
                         in if 0 < tf
                            then fadd score (fmul (int_truediv tf (length doc_tokens)) 10)
                            else score) query_terms 0;
               matching_terms = length (filter (\<lambda>term. term \<in> set doc_tokens) query_terms);
               coverage = (if query_terms \<noteq> []
                           then int_truediv matching_terms (length query_terms) else 0);
               score = fadd score (fmul coverage 5);
               score = (if sublist query_raw doc_text then fadd score 15 else score);
               metadata_text = lower (join '' '' (map (\<lambda>(k, v). py_str v) (metadata doc)))
           in fold (\<lambda>term score. if sublist term metadata_text then fadd score 3 else score)
                query_terms score)"

text \<open>\<^verbatim>\<open>retrieve\<close>. \<^verbatim>\<open>list.sort(key=..., reverse=True)\<close> is stable, as is
  \<^const>\<open>sort_key\<close> on the negated score.\<close>

definition retrieve :: "rag \<Rightarrow> string \<Rightarrow> int \<Rightarrow> (Document \<times> rat) list" where
  "retrieve st query top_k =
     (if \<not> corpus_loaded st then []
      else
        let query_terms = tokenize (lower query);
            scored_docs = filter (\<lambda>(doc, score). 0 < score)
                            (map (\<lambda>doc. (doc, score_document doc query_terms (lower query)))
                               (documents st));
            scored_docs = sort_key (\<lambda>(doc, score). - score) scored_docs
        in slice_to top_k scored_docs)"

section \<open>Answering\<close>

text \<open>\<^verbatim>\<open>re.split(r'(?<=[.!?])\s+', s)\<close>: a run of white space splits the string when
  the character before it is a full stop, an exclamation mark or a question mark.
  \<^verbatim>\<open>prev\<close> is the character before the current position, \<^verbatim>\<open>acc\<close> the current piece,
  last character first.\<close>

function split_sentences :: "string \<Rightarrow> char option \<Rightarrow> string \<Rightarrow> string list" where
  "split_sentences acc prev [] = [rev acc]"
| "split_sentences acc prev (c # cs) =
     (if is_space c \<and> prev \<in> {Some (CHR ''.''), Some (CHR ''!''), Some (CHR ''?'')}
      then rev acc # split_sentences [] (Some (last (c # takeWhile is_space cs)))
                       (dropWhile is_space cs)
      else split_sentences (c # acc) (Some c) cs)"
  by pat_completeness auto
termination
  by (relation "measure (\<lambda>(acc, prev, s). length s)")
    (auto simp: less_Suc_eq_le length_dropWhile_le)

text \<open>\<^verbatim>\<open>_generate_answer\<close>; only its parameter \<^verbatim>\<open>retrieved\<close> is read. \<^verbatim>\<open>retrieved[0]\<close>
  raises \<^verbatim>\<open>IndexError\<close> on an empty list.\<close>

definition first_meaningful :: "Document \<Rightarrow> string list" where
  "first_meaningful doc =
     (let sentences = split_sentences [] None (strip (content doc));
          meaningful = map strip (filter (\<lambda>s. 40 < length (strip s)) sentences)
      in if meaningful \<noteq> [] then [hd meaningful] else [])"

definition generate_answer :: "(Document \<times> rat) list \<Rightarrow> py_error + string" where
  "generate_answer retrieved =
     (let parts = concat (map (\<lambda>(doc, score). first_meaningful doc) (take 2 retrieved))
      in if parts \<noteq> [] then Inr (join '' '' parts)
         else (case retrieved of
                 [] \<Rightarrow> Inl IndexError
               | (doc, score) # rest \<Rightarrow>
                   let topdoc = content doc
                   in Inr (take 400 topdoc @ (if 400 < length topdoc then ''...'' else []))))"

record answer_result =
  answer :: string
  citations :: "Citation list"
  confidence :: string

definition context_snippet :: "Document \<Rightarrow> string" where
  "context_snippet doc =
     (if length (content doc) \<le> 1500 then content doc else take 1500 (content doc) @ ''...'')"

definition citation_of :: "Document \<Rightarrow> Citation" where
  "citation_of doc =
     \<lparr>Citation.doc_id = doc_id doc, Citation.section_id = section_id doc,
      snippet = take 120 (context_snippet doc)\<rparr>"

text \<open>\<^verbatim>\<open>answer_user_query\<close>. The context string is built and handed to
  \<^verbatim>\<open>_generate_answer\<close>, which does not read it.\<close>

definition answer_user_query :: "rag \<Rightarrow> string \<Rightarrow> py_error + answer_result" where
  "answer_user_query st query =
     (let retrieved = retrieve st query 4
      in if retrieved = []
         then Inr \<lparr>answer = ''No relevant information found in the Kerala Ayurveda corpus.'',
                   citations = [], confidence = ''low''\<rparr>
         else
           let citations = map (\<lambda>(doc, score). citation_of doc) retrieved
           in case generate_answer retrieved of
                Inl e \<Rightarrow> Inl e
              | Inr answer_text \<Rightarrow>
                  Inr \<lparr>answer = answer_text, citations = citations,
                       confidence = (if 2 \<le> length retrieved then ''high'' else ''medium'')\<rparr>)"

section \<open>Notions used in the statements\<close>

text \<open>The chunks derived from a document list: those of each document, in order.\<close>

definition chunks_of :: "(pyval \<Rightarrow> int) \<Rightarrow> raw_doc list \<Rightarrow> Document list" where
  "chunks_of h docs =
     concat (map (\<lambda>doc. case chunk_document h doc of Inl e \<Rightarrow> [] | Inr chunks \<Rightarrow> chunks) docs)"

text \<open>The answer of \<^verbatim>\<open>answer_user_query\<close> when nothing was retrieved.\<close>

definition no_info :: answer_result where
  "no_info = \<lparr>answer = ''No relevant information found in the Kerala Ayurveda corpus.'',
     citations = [], confidence = ''low''\<rparr>"

text \<open>A heading marker: a string the pattern \<^verbatim>\<open>\r?\n##\s+\<close> matches as a whole.\<close>

definition heading_marker :: "string \<Rightarrow> bool" where
  "heading_marker m =
     (let t = (case m of [] \<Rightarrow> [] | c # cs \<Rightarrow> if c = CR then cs else m)
      in take 3 t = [NL, CHR ''#'', CHR ''#''] \<and> drop 3 t \<noteq> [] \<and> list_all is_space (drop 3 t))"

text \<open>The heading pattern \<^verbatim>\<open>\r?\n##\s+\<close> matches at the start of a string: an
  optional carriage return, a line feed, \<^verbatim>\<open>##\<close> and a white-space character.\<close>

definition heading_starts :: "string \<Rightarrow> bool" where
  "heading_starts s =
     (let t = (case s of [] \<Rightarrow> [] | c # cs \<Rightarrow> if c = CR then cs else s)
      in take 3 t = [NL, CHR ''#'', CHR ''#'']
         \<and> (case drop 3 t of [] \<Rightarrow> False | w # r \<Rightarrow> is_space w))"

text \<open>No match of the heading pattern starts inside \<^verbatim>\<open>x\<close> when \<^verbatim>\<open>follow\<close> comes after
  it.\<close>

fun no_heading_within :: "string \<Rightarrow> string \<Rightarrow> bool" where
  "no_heading_within [] follow = True"
| "no_heading_within (c # cs) follow =
     (\<not> heading_starts (c # cs @ follow) \<and> no_heading_within cs follow)"

text \<open>A text that starts with a character that is not white space, and a text that is
  empty or starts with such a character.\<close>

definition starts_nonspace :: "string \<Rightarrow> bool" where
  "starts_nonspace s = (case s of [] \<Rightarrow> False | c # cs \<Rightarrow> \<not> is_space c)"

definition not_starts_space :: "string \<Rightarrow> bool" where
  "not_starts_space s = (case s of [] \<Rightarrow> True | c # cs \<Rightarrow> \<not> is_space c)"

text \<open>The condition of C9 in its own words: the lines of a text, \<^verbatim>\<open>s.split('\n')\<close>, and
  the lines that are second-level headings, \<^verbatim>\<open>##\<close> followed by white space or by the end
  of the line.\<close>

fun lines_from :: "string \<Rightarrow> string \<Rightarrow> string list" where
  "lines_from acc [] = [rev acc]"
| "lines_from acc (c # cs) =
     (if c = NL then rev acc # lines_from [] cs else lines_from (c # acc) cs)"

definition split_lines :: "string \<Rightarrow> string list" where
  "split_lines s = lines_from [] s"

definition is_heading_line :: "string \<Rightarrow> bool" where
  "is_heading_line l =
     (take 2 l = ''##'' \<and> (case drop 2 l of [] \<Rightarrow> True | c # r \<Rightarrow> is_space c))"

text \<open>The fallback chunk of \<^verbatim>\<open>_chunk_faq\<close>.\<close>

definition faq_all_chunk :: "string \<Rightarrow> string \<Rightarrow> pydict \<Rightarrow> Document" where
  "faq_all_chunk did body meta =
     \<lparr>doc_id = did, section_id = ''faq_all'', content = body, metadata = meta\<rparr>"

text \<open>A numbered block as the FAQ pattern sees it: the head \<^verbatim>\<open>## <n>.\<close> at the start of
  the string, one more character, and a \<^verbatim>\<open>\n\n\<close> anywhere after that character.\<close>

definition faq_block_at :: "string \<Rightarrow> bool" where
  "faq_block_at s =
     (case faq_head_at s of None \<Rightarrow> False | Some r \<Rightarrow> r \<noteq> [] \<and> sublist [NL, NL] (tl r))"

fun faq_block_somewhere :: "string \<Rightarrow> bool" where
  "faq_block_somewhere [] = False"
| "faq_block_somewhere (c # cs) = (faq_block_at (c # cs) \<or> faq_block_somewhere cs)"

text \<open>The condition of C10 in its own words: a heading line \<^verbatim>\<open>## <n>. <question>\<close>, which
  ends at the first line feed after the head, immediately followed by a blank line, so
  that this line feed is followed by a second one.\<close>

definition heading_line_then_blank_at :: "string \<Rightarrow> bool" where
  "heading_line_then_blank_at s =
     (case faq_head_at s of
        None \<Rightarrow> False
      | Some r \<Rightarrow> take 2 (dropWhile (\<lambda>c. c \<noteq> NL) r) = [NL, NL])"

fun heading_line_then_blank :: "string \<Rightarrow> bool" where
  "heading_line_then_blank [] = False"
| "heading_line_then_blank (c # cs) =
     (heading_line_then_blank_at (c # cs) \<or> heading_line_then_blank cs)"

text \<open>The key of a chunk.\<close>

definition chunk_key :: "Document \<Rightarrow> string \<times> string" where
  "chunk_key d = (doc_id d, section_id d)"

text \<open>The records of a tabular document have pairwise distinct keys, as
  \<^verbatim>\<open>_chunk_csv\<close> writes them into the section id.\<close>

definition record_keys_distinct :: "(pyval \<Rightarrow> int) \<Rightarrow> raw_doc \<Rightarrow> bool" where
  "record_keys_distinct h doc =
     (case d_content doc of
        Some (Rows rs) \<Rightarrow> distinct (map (\<lambda>row. py_str (product_key h row)) rs)
      | _ \<Rightarrow> True)"

text \<open>Two hash functions, those of two runs, agree on a document: they give the same
  value for the name of every record that has no true \<^verbatim>\<open>product_id\<close>.\<close>

definition hashes_agree :: "(pyval \<Rightarrow> int) \<Rightarrow> (pyval \<Rightarrow> int) \<Rightarrow> raw_doc \<Rightarrow> bool" where
  "hashes_agree h1 h2 doc =
     (case d_content doc of
        Some (Rows rs) \<Rightarrow>
          list_all (\<lambda>row. truthy (dict_get row ''product_id'' VNone)
                       \<or> h1 (dict_get row ''name'' (VStr [])) = h2 (dict_get row ''name'' (VStr [])))
            rs
      | _ \<Rightarrow> True)"

text \<open>The shape of the numbered section ids, \<^verbatim>\<open>f"section_{i}_{slug}"\<close> and
  \<^verbatim>\<open>f"faq_{i}_{slug}"\<close>, and the metadata \<^verbatim>\<open>doc.get('metadata', {})\<close>.\<close>

definition numbered_id :: "string \<Rightarrow> nat \<Rightarrow> string \<Rightarrow> string" where
  "numbered_id p i s = p @ str_nat i @ ''_'' @ s"

definition meta_of :: "raw_doc \<Rightarrow> pydict" where
  "meta_of doc = (case d_metadata doc of Some m \<Rightarrow> m | None \<Rightarrow> [])"

text \<open>The shape of a slug before its ends are stripped: lower-case letters, digits and
  single underscores.\<close>

fun slug_form :: "string \<Rightarrow> bool" where
  "slug_form [] = True"
| "slug_form [c] = (is_slug_char c \<or> c = CHR ''_'')"
| "slug_form (c # d # cs) =
     ((is_slug_char c \<or> (c = CHR ''_'' \<and> d \<noteq> CHR ''_'')) \<and> slug_form (d # cs))"

text \<open>The steps of \<^verbatim>\<open>_score_document\<close> for a chunk with a token: the running score after
  the term-frequency loop and the coverage step, the lower-cased metadata text, and
  the metadata loop applied to a running score.\<close>

definition lexical_score :: "Document \<Rightarrow> string list \<Rightarrow> rat" where
  "lexical_score doc query_terms =
     (let doc_tokens = tokenize (lower (content doc));
          score = fold (\<lambda>term score.
                    let tf = count_list doc_tokens term
                    in if 0 < tf
                       then fadd score (fmul (int_truediv tf (length doc_tokens)) 10)
                       else score) query_terms 0;
          matching_terms = length (filter (\<lambda>term. term \<in> set doc_tokens) query_terms);
          coverage = (if query_terms \<noteq> []
                      then int_truediv matching_terms (length query_terms) else 0)
      in fadd score (fmul coverage 5))"

definition metadata_text :: "Document \<Rightarrow> string" where
  "metadata_text doc = lower (join '' '' (map (\<lambda>(k, v). py_str v) (metadata doc)))"

definition metadata_boost :: "Document \<Rightarrow> string list \<Rightarrow> rat \<Rightarrow> rat" where
  "metadata_boost doc query_terms score =
     fold (\<lambda>term score. if sublist term (metadata_text doc) then fadd score 3 else score)
       query_terms score"

section \<open>Example inputs\<close>

definition raw_hello :: raw_doc where
  "raw_hello = \<lparr>d_id = Some ''d'', d_type = None, d_content = Some (Text ''hello''),
     d_metadata = None\<rparr>"

definition doc_hello :: Document where
  "doc_hello = \<lparr>doc_id = ''d'', section_id = ''main'', content = ''hello'', metadata = []\<rparr>"

definition st_hello :: rag where
  "st_hello = \<lparr>documents = [doc_hello], corpus_loaded = True\<rparr>"

definition raw_tea :: raw_doc where
  "raw_tea = \<lparr>d_id = Some ''t'', d_type = Some ''text'', d_content = Some (Text ''tea''),
     d_metadata = Some []\<rparr>"

definition doc_tea :: Document where
  "doc_tea = \<lparr>doc_id = ''t'', section_id = ''main'', content = ''tea'', metadata = []\<rparr>"

definition doc_green :: Document where
  "doc_green = \<lparr>doc_id = ''g'', section_id = ''main'', content = ''green tea'', metadata = []\<rparr>"

definition st_tea :: rag where
  "st_tea = \<lparr>documents = [doc_green, doc_tea], corpus_loaded = True\<rparr>"

text \<open>Two pairs of chunks with the same tokens and the same metadata, of which only the
  first contains the phrase \<^verbatim>\<open>tea time\<close>, or \<^verbatim>\<open>oil ba\<close>.\<close>

definition doc_tea_time :: Document where
  "doc_tea_time = \<lparr>doc_id = ''d'', section_id = ''main'', content = ''Tea time'',
     metadata = []\<rparr>"

definition doc_tea_comma_time :: Document where
  "doc_tea_comma_time = \<lparr>doc_id = ''d'', section_id = ''main'', content = ''Tea, time'',
     metadata = []\<rparr>"

definition doc_scalp :: Document where
  "doc_scalp = \<lparr>doc_id = ''d'', section_id = ''main'',
     content = ''Oil bath for the scalp and hair'', metadata = [(''category'', VStr ''oil'')]\<rparr>"

definition doc_scalp_comma :: Document where
  "doc_scalp_comma = \<lparr>doc_id = ''d'', section_id = ''main'',
     content = ''Oil, bath for the scalp and hair'', metadata = [(''category'', VStr ''oil'')]\<rparr>"

text \<open>A markdown text with a leading line and two headings, a markdown text whose
  first heading has no title and is followed at once by the second, a markdown text
  whose last heading has no title and ends the text, an FAQ text
  whose numbered heading is followed by a line of text and only then by a blank line,
  and an FAQ text whose second numbered heading stands before the first blank line.\<close>

definition md_body :: string where
  "md_body = '' Hi '' @ [NL] @ ''##  A b '' @ [NL] @ '' x '' @ [NL] @ ''## C'' @ [NL] @ ''y'' @ [NL]"

definition md_empty_title :: string where
  "md_empty_title = ''Hi'' @ [NL] @ ''## '' @ [NL] @ ''## C'' @ [NL] @ ''y''"

definition md_last_untitled :: string where
  "md_last_untitled = ''Hi'' @ [NL] @ ''## A'' @ [NL] @ ''## ''"

definition faq_two_line_question :: string where
  "faq_two_line_question = ''## 1. Q'' @ [NL] @ ''A'' @ [NL, NL] @ ''B''"

definition faq_swallowed_head :: string where
  "faq_swallowed_head = ''## 1. a'' @ [NL] @ ''## 2. b'' @ [NL, NL] @ ''c''"

text \<open>A markdown document, a product table whose records have identifiers, a
  product table whose only record has none, a product table with two records of the
  same identifier, and a product table with two records of the same name and no
  identifier.\<close>

definition raw_md :: raw_doc where
  "raw_md = \<lparr>d_id = Some ''m'', d_type = Some ''markdown'', d_content = Some (Text md_body),
     d_metadata = None\<rparr>"

definition raw_products :: raw_doc where
  "raw_products = \<lparr>d_id = Some ''p'', d_type = Some ''csv'',
     d_content = Some (Rows [[(''product_id'', VStr ''P1''), (''name'', VStr ''Tea'')],
                             [(''product_id'', VStr ''P2''), (''name'', VStr ''Oil'')]]),
     d_metadata = Some [(''category'', VStr ''products'')]\<rparr>"

definition tea_row :: pydict where
  "tea_row = [(''name'', VStr ''Tea'')]"

definition tea_row_chunk :: "string \<Rightarrow> Document" where
  "tea_row_chunk sid = \<lparr>doc_id = ''p'', section_id = sid, content = format_product_row tea_row,
     metadata = tea_row\<rparr>"

definition raw_unnamed_id :: raw_doc where
  "raw_unnamed_id = \<lparr>d_id = Some ''p'', d_type = Some ''csv'',
     d_content = Some (Rows [tea_row]), d_metadata = None\<rparr>"

definition raw_twins :: raw_doc where
  "raw_twins = \<lparr>d_id = Some ''p'', d_type = Some ''csv'',
     d_content = Some (Rows [[(''product_id'', VStr ''P1''), (''name'', VStr ''Tea'')],
                             [(''product_id'', VStr ''P1''), (''name'', VStr ''Oil'')]]),
     d_metadata = None\<rparr>"

definition raw_namesakes :: raw_doc where
  "raw_namesakes = \<lparr>d_id = Some ''p'', d_type = Some ''csv'',
     d_content = Some (Rows [[(''name'', VStr ''Tea''), (''format'', VStr ''bag'')],
                             [(''name'', VStr ''Tea''), (''format'', VStr ''loose'')]]),
     d_metadata = None\<rparr>"

section \<open>Properties of slugs\<close>

lemma underscore_not_slug_char [simp]: "\<not> is_slug_char (CHR ''_'')"
  by (simp add: is_slug_char_def is_lower_def is_digit_def)

lemma slug_char_not_upper: "is_slug_char c \<Longrightarrow> \<not> is_upper c"
  by (auto simp: is_slug_char_def is_lower_def is_digit_def is_upper_def Let_def)

lemma underscore_not_upper [simp]: "\<not> is_upper (CHR ''_'')"
  by (simp add: is_upper_def)

lemma slug_form_tail: "slug_form (c # cs) \<Longrightarrow> slug_form cs"
  by (cases cs) auto

lemma re_sub_nonslug_head:
  "re_sub_nonslug s = [] \<or> (is_slug_char (hd s) \<and> hd (re_sub_nonslug s) = hd s)
     \<or> (\<not> is_slug_char (hd s) \<and> hd (re_sub_nonslug s) = CHR ''_'')"
  by (cases s) auto

lemma dropWhile_nonslug_head:
  "dropWhile (\<lambda>x. \<not> is_slug_char x) cs = [] \<or> is_slug_char (hd (dropWhile (\<lambda>x. \<not> is_slug_char x) cs))"
  using hd_dropWhile [of "\<lambda>x. \<not> is_slug_char x" cs] by auto

lemma slug_form_cons_slug: "is_slug_char c \<Longrightarrow> slug_form cs \<Longrightarrow> slug_form (c # cs)"
  by (cases cs) auto

lemma slug_form_cons_underscore:
  "slug_form cs \<Longrightarrow> cs = [] \<or> hd cs \<noteq> CHR ''_'' \<Longrightarrow> slug_form (CHR ''_'' # cs)"
  by (cases cs) auto

lemma slug_form_re_sub_nonslug: "slug_form (re_sub_nonslug s)"
proof (induction s rule: re_sub_nonslug.induct)
  case 1
  show ?case by simp
next
  case (2 c cs)
  show ?case
  proof (cases "is_slug_char c")
    case True
    with 2 show ?thesis by (simp add: slug_form_cons_slug)
  next
    case False
    define r where "r = dropWhile (\<lambda>x. \<not> is_slug_char x) cs"
    have ih: "slug_form (re_sub_nonslug r)" using 2 False by (simp add: r_def)
    have "re_sub_nonslug r = [] \<or> hd (re_sub_nonslug r) \<noteq> CHR ''_''"
    proof (cases r)
      case Nil
      then show ?thesis by simp
    next
      case (Cons x xs)
      then have "r \<noteq> []" and "hd r = x" by simp_all
      with hd_dropWhile [of "\<lambda>x. \<not> is_slug_char x" cs] have "is_slug_char x"
        unfolding r_def by blast
      with Cons show ?thesis by auto
    qed
    with ih False show ?thesis by (simp add: slug_form_cons_underscore r_def)
  qed
qed

lemma slug_form_lower: "slug_form s \<Longrightarrow> lower s = s"
proof (induction s rule: slug_form.induct)
  case 1
  show ?case by (simp add: lower_def)
next
  case (2 c)
  then show ?case by (auto simp: lower_def lower_char_def slug_char_not_upper)
next
  case (3 c d cs)
  then show ?case by (auto simp: lower_def lower_char_def slug_char_not_upper)
qed

lemma slug_form_re_sub_nonslug_id: "slug_form s \<Longrightarrow> re_sub_nonslug s = s"
proof (induction s rule: slug_form.induct)
  case 1
  show ?case by simp
next
  case (2 c)
  then show ?case by auto
next
  case (3 c d cs)
  then show ?case by (cases "is_slug_char d") auto
qed

lemma slug_form_re_sub_underscores_id: "slug_form s \<Longrightarrow> re_sub_underscores s = s"
  by (induction s rule: slug_form.induct) auto

lemma slug_form_dropWhile: "slug_form s \<Longrightarrow> slug_form (dropWhile P s)"
  by (induction s) (auto dest: slug_form_tail)

lemma slug_form_butlast: "slug_form s \<Longrightarrow> slug_form (butlast s)"
  by (induction s rule: slug_form.induct) (auto split: if_splits)

lemma slug_form_rev_dropWhile_rev: "slug_form s \<Longrightarrow> slug_form (rev (dropWhile P (rev s)))"
proof (induction s rule: rev_induct)
  case Nil
  show ?case by simp
next
  case (snoc x xs)
  have "slug_form xs" using slug_form_butlast [OF snoc.prems] by simp
  with snoc show ?case by auto
qed

lemma slug_form_strip_by: "slug_form s \<Longrightarrow> slug_form (strip_by P s)"
  by (simp add: strip_by_def slug_form_dropWhile slug_form_rev_dropWhile_rev)

lemma dropWhile_rev_dropWhile:
  "dropWhile P (rev (dropWhile P (rev t))) = rev (dropWhile P (rev (dropWhile P t)))"
proof (induction t)
  case Nil
  show ?case by simp
next
  case (Cons a t)
  show ?case
  proof (cases "P a")
    case False
    then show ?thesis by (simp add: dropWhile_append3)
  next
    case True
    show ?thesis
    proof (cases "\<forall>x\<in>set t. P x")
      case True
      with \<open>P a\<close> have l: "dropWhile P (rev (a # t)) = []" and r: "dropWhile P (a # t) = []"
        by simp_all
      show ?thesis unfolding l r by simp
    next
      case False
      then have "dropWhile P (rev t) \<noteq> []" by (simp add: dropWhile_eq_Nil_conv)
      then have "dropWhile P (rev t @ [a]) = dropWhile P (rev t) @ [a]"
        by (metis dropWhile_append1 dropWhile_eq_Nil_conv)
      with True Cons show ?thesis by simp
    qed
  qed
qed

lemma strip_by_idem: "strip_by P (strip_by P s) = strip_by P s"
proof -
  let ?t = "dropWhile P s"
  have a: "dropWhile P (rev (dropWhile P (rev ?t))) = rev (dropWhile P (rev ?t))"
    using dropWhile_rev_dropWhile [of P ?t] by (simp add: dropWhile_idem)
  show ?thesis by (simp add: strip_by_def a dropWhile_idem)
qed

lemma slug_form_slugify: "slug_form (slugify s)"
  by (simp add: slugify_def Let_def slug_form_strip_by slug_form_re_sub_underscores_id
      slug_form_re_sub_nonslug)

text \<open>C8: for every string \<^verbatim>\<open>s\<close>, \<^verbatim>\<open>slugify(slugify(s)) == slugify(s)\<close>: slugifying a
  slug returns it unchanged.\<close>

theorem slugify_idempotent: "slugify (slugify s) = slugify s"
proof -
  let ?u = "\<lambda>c. c = CHR ''_''"
  have f: "slug_form (slugify s)" by (rule slug_form_slugify)
  have s: "slugify s = strip_by ?u (re_sub_nonslug (lower s))"
    by (simp add: slugify_def Let_def slug_form_re_sub_underscores_id slug_form_re_sub_nonslug)
  have "slugify (slugify s) = strip_by ?u (slugify s)"
    using f by (simp add: slugify_def [of "slugify s"] Let_def slug_form_lower
        slug_form_re_sub_nonslug_id slug_form_re_sub_underscores_id)
  also have "\<dots> = slugify s"
    by (simp add: s strip_by_idem)
  finally show ?thesis .
qed

section \<open>Properties of loading\<close>

lemma load_corpus_documents:
  "load_corpus h st docs = (st', None) \<Longrightarrow>
     documents st' = documents st @ chunks_of h docs \<and> corpus_loaded st'"
proof (induction docs arbitrary: st)
  case Nil
  then show ?case by (auto simp: chunks_of_def)
next
  case (Cons doc docs)
  show ?case
  proof (cases "chunk_document h doc")
    case (Inl e)
    with Cons.prems show ?thesis by simp
  next
    case (Inr chunks)
    with Cons.prems
    have "load_corpus h (st\<lparr>documents := documents st @ chunks\<rparr>) docs = (st', None)"
      by simp
    from Cons.IH [OF this] Inr show ?thesis by (simp add: chunks_of_def)
  qed
qed

lemma load_hello: "load_corpus h init [raw_hello] = (st_hello, None)"
  by (simp add: init_def raw_hello_def st_hello_def doc_hello_def chunk_document_def)

text \<open>C1, as the code has it: \<^verbatim>\<open>load_corpus\<close> appends. When \<^verbatim>\<open>load_corpus(D)\<close> returns, the
  chunk store holds the chunks it held before the call, followed by the chunks derived
  from \<^verbatim>\<open>D\<close>, and the flag is set; the store holds exactly the chunks derived from
  \<^verbatim>\<open>D\<close> when it was empty before the call, as it is on a new system.\<close>

theorem load_corpus_appends:
  assumes "load_corpus h st docs = (st', None)"
  shows "documents st' = documents st @ chunks_of h docs \<and> corpus_loaded st'
       \<and> (documents st = [] \<longrightarrow> documents st' = chunks_of h docs)"
  using load_corpus_documents [OF assms] by simp

theorem load_corpus_appends_witness:
  "load_corpus (\<lambda>v. 0) st_hello [raw_tea]
     = (\<lparr>documents = [doc_hello, doc_tea], corpus_loaded = True\<rparr>, None)
   \<and> documents \<lparr>documents = [doc_hello, doc_tea], corpus_loaded = True\<rparr>
       = documents st_hello @ chunks_of (\<lambda>v. 0) [raw_tea]"
proof -
  have l: "load_corpus (\<lambda>v. 0) st_hello [raw_tea]
     = (\<lparr>documents = [doc_hello, doc_tea], corpus_loaded = True\<rparr>, None)"
    by code_simp
  from load_corpus_appends [OF l] l show ?thesis by simp
qed

text \<open>C1 as stated fails: a second \<^verbatim>\<open>load_corpus\<close> keeps the chunks of the first. After
  loading \<^verbatim>\<open>[raw_hello]\<close> and then \<^verbatim>\<open>[raw_tea]\<close> into a new system, without an
  exception, the store is not the list of chunks derived from \<^verbatim>\<open>[raw_tea]\<close>.\<close>

theorem load_corpus_keeps_earlier_chunks:
  "documents (fst (load_corpus (\<lambda>v. 0) (fst (load_corpus (\<lambda>v. 0) init [raw_hello])) [raw_tea]))
     \<noteq> chunks_of (\<lambda>v. 0) [raw_tea]
   \<and> snd (load_corpus (\<lambda>v. 0) (fst (load_corpus (\<lambda>v. 0) init [raw_hello])) [raw_tea]) = None"
  by code_simp

section \<open>Properties of scoring and retrieval\<close>

lemma slice_to_nonneg: "0 \<le> k \<Longrightarrow> slice_to k xs = take (nat k) xs"
  by (simp add: slice_to_def)

lemma sorted_wrt_sort_key_desc:
  "sorted_wrt (\<lambda>a b. snd b \<le> snd a) (sort_key (\<lambda>(d, s). - s) (xs :: ('a \<times> rat) list))"
proof -
  have "sorted (map (\<lambda>(d, s). - s) (sort_key (\<lambda>(d, s). - s) xs))"
    by (rule sorted_sort_key)
  then show ?thesis
    by (simp add: sorted_map case_prod_unfold)
qed

lemma sorted_wrt_take: "sorted_wrt P xs \<Longrightarrow> sorted_wrt P (take n xs)"
  by (metis append_take_drop_id sorted_wrt_append)

text \<open>C4: for every state of the system, every query and every \<^verbatim>\<open>K >= 0\<close>,
  \<^verbatim>\<open>retrieve(query, top_k=K)\<close> returns at most \<^verbatim>\<open>K\<close> results, every returned score is
  strictly positive, and the results are in descending order of score.\<close>

theorem retrieve_contract:
  assumes "0 \<le> K"
  shows "length (retrieve st query K) \<le> nat K
       \<and> (\<forall>(doc, score) \<in> set (retrieve st query K). 0 < score)
       \<and> sorted_wrt (\<lambda>a b. snd b \<le> snd a) (retrieve st query K)"
proof (cases "corpus_loaded st")
  case False
  then show ?thesis by (simp add: retrieve_def)
next
  case True
  define scored where "scored = filter (\<lambda>(doc, score). 0 < score)
     (map (\<lambda>doc. (doc, score_document doc (tokenize (lower query)) (lower query))) (documents st))"
  have r: "retrieve st query K = take (nat K) (sort_key (\<lambda>(doc, score). - score) scored)"
    using True assms by (simp add: retrieve_def Let_def scored_def slice_to_nonneg)
  have "set (retrieve st query K) \<subseteq> set scored"
    unfolding r using set_take_subset [of "nat K"] by fastforce
  moreover have "\<forall>(doc, score) \<in> set scored. 0 < score"
    by (auto simp: scored_def)
  ultimately have pos: "\<forall>(doc, score) \<in> set (retrieve st query K). 0 < score"
    by blast
  have "sorted_wrt (\<lambda>a b. snd b \<le> snd a) (retrieve st query K)"
    unfolding r by (rule sorted_wrt_take) (rule sorted_wrt_sort_key_desc)
  moreover have "length (retrieve st query K) \<le> nat K"
    unfolding r by simp
  ultimately show ?thesis using pos by simp
qed

theorem retrieve_contract_witness:
  "(0::int) \<le> 1 \<and> retrieve st_tea ''tea'' 4 = [(doc_tea, 30), (doc_green, 25)]
   \<and> retrieve st_tea ''tea'' 1 = [(doc_tea, 30)]
   \<and> length (retrieve st_tea ''tea'' 1) \<le> nat 1
   \<and> sorted_wrt (\<lambda>a b. snd b \<le> snd a) (retrieve st_tea ''tea'' 1)"
proof -
  have k: "(0::int) \<le> 1" by simp
  have a: "retrieve st_tea ''tea'' 4 = [(doc_tea, 30), (doc_green, 25)]" by code_simp
  have b: "retrieve st_tea ''tea'' 1 = [(doc_tea, 30)]" by code_simp
  from retrieve_contract [OF k, of st_tea "''tea''"]
  have "length (retrieve st_tea ''tea'' 1) \<le> nat 1
      \<and> sorted_wrt (\<lambda>a b. snd b \<le> snd a) (retrieve st_tea ''tea'' 1)"
    by blast
  with k a b show ?thesis by blast
qed

text \<open>C2 fails on the code: the empty string is a substring of every string, so the
  exact-phrase bonus of 15 goes to every chunk that has a token. With the one chunk
  \<^verbatim>\<open>hello\<close> loaded, \<^verbatim>\<open>retrieve("", 4)\<close> returns that chunk with score 15.\<close>

theorem retrieve_empty_query_returns_chunk:
  "load_corpus (\<lambda>v. 0) init [raw_hello] = (st_hello, None)
   \<and> retrieve st_hello [] 4 = [(doc_hello, 15)]"
  by code_simp

lemma score_document_steps:
  "score_document doc query_terms query_raw =
     (if tokenize (lower (content doc)) = [] then 0
      else metadata_boost doc query_terms
             (if sublist query_raw (lower (content doc))
              then fadd (lexical_score doc query_terms) 15
              else lexical_score doc query_terms))"
  unfolding score_document_def lexical_score_def metadata_boost_def metadata_text_def Let_def
  by simp

lemma lexical_score_tokens:
  assumes "tokenize (lower (content d1)) = tokenize (lower (content d2))"
  shows "lexical_score d1 qt = lexical_score d2 qt"
  unfolding lexical_score_def Let_def assms by (rule refl)

lemma metadata_boost_metadata:
  "metadata d1 = metadata d2 \<Longrightarrow> metadata_boost d1 qt s = metadata_boost d2 qt s"
  unfolding metadata_boost_def metadata_text_def by simp

lemma metadata_boost_no_hit:
  "list_all (\<lambda>t. \<not> sublist t (metadata_text doc)) qt \<Longrightarrow> metadata_boost doc qt s = s"
  unfolding metadata_boost_def by (induction qt arbitrary: s) simp_all

text \<open>C7, as the code has it: the scores are doubles, and the bonus is one floating-point
  addition. Let two chunks have the same tokens, at least one, and the same metadata,
  and let only the first contain the raw lower-cased query in its lower-cased content.
  Then both scores are the same metadata boosts applied to a running score, and the
  running score of the first chunk is that of the second with 15.0 added by one
  floating-point addition; when no query term occurs in the metadata text, the score
  of the first chunk is the double nearest to the score of the second plus 15.\<close>

theorem phrase_adds_fifteen:
  assumes same_tokens: "tokenize (lower (content d1)) = tokenize (lower (content d2))"
    and same_metadata: "metadata d1 = metadata d2"
    and has_token: "tokenize (lower (content d1)) \<noteq> []"
    and phrase_in: "sublist query_raw (lower (content d1))"
    and phrase_out: "\<not> sublist query_raw (lower (content d2))"
  shows "score_document d2 query_terms query_raw
           = metadata_boost d2 query_terms (lexical_score d2 query_terms)
       \<and> score_document d1 query_terms query_raw
           = metadata_boost d2 query_terms (fadd (lexical_score d2 query_terms) 15)
       \<and> (list_all (\<lambda>t. \<not> sublist t (metadata_text d2)) query_terms \<longrightarrow>
            score_document d1 query_terms query_raw
              = round_double (score_document d2 query_terms query_raw + 15))"
proof -
  have t2: "tokenize (lower (content d2)) \<noteq> []"
    using has_token same_tokens by simp
  have s2: "score_document d2 query_terms query_raw
      = metadata_boost d2 query_terms (lexical_score d2 query_terms)"
    using t2 phrase_out by (simp add: score_document_steps)
  have s1: "score_document d1 query_terms query_raw
      = metadata_boost d2 query_terms (fadd (lexical_score d2 query_terms) 15)"
    using has_token phrase_in
    by (simp add: score_document_steps lexical_score_tokens [OF same_tokens]
        metadata_boost_metadata [OF same_metadata])
  show ?thesis
    using s1 s2 by (simp add: metadata_boost_no_hit fadd_def)
qed

theorem phrase_adds_fifteen_witness:
  "tokenize (lower (content doc_tea_time)) = tokenize (lower (content doc_tea_comma_time))
   \<and> metadata doc_tea_time = metadata doc_tea_comma_time
   \<and> tokenize (lower (content doc_tea_time)) \<noteq> []
   \<and> sublist ''tea time'' (lower (content doc_tea_time))
   \<and> \<not> sublist ''tea time'' (lower (content doc_tea_comma_time))
   \<and> list_all (\<lambda>t. \<not> sublist t (metadata_text doc_tea_comma_time)) [''tea'', ''time'']
   \<and> score_document doc_tea_comma_time [''tea'', ''time''] ''tea time'' = 15
   \<and> score_document doc_tea_time [''tea'', ''time''] ''tea time'' = round_double (15 + 15)
   \<and> score_document doc_tea_time [''tea'', ''time''] ''tea time'' = 30"
proof -
  have a: "tokenize (lower (content doc_tea_time)) = tokenize (lower (content doc_tea_comma_time))"
    by code_simp
  have b: "metadata doc_tea_time = metadata doc_tea_comma_time" by code_simp
  have c: "tokenize (lower (content doc_tea_time)) \<noteq> []" by code_simp
  have d: "sublist ''tea time'' (lower (content doc_tea_time))" by code_simp
  have e: "\<not> sublist ''tea time'' (lower (content doc_tea_comma_time))" by code_simp
  have f: "list_all (\<lambda>t. \<not> sublist t (metadata_text doc_tea_comma_time)) [''tea'', ''time'']"
    by code_simp
  have g: "score_document doc_tea_comma_time [''tea'', ''time''] ''tea time'' = 15" by code_simp
  have h: "round_double (15 + 15) = 30" by code_simp
  from phrase_adds_fifteen [OF a b c d e, of "[''tea'', ''time'']"] f
  have "score_document doc_tea_time [''tea'', ''time''] ''tea time''
      = round_double (score_document doc_tea_comma_time [''tea'', ''time''] ''tea time'' + 15)"
    by blast
  then have i: "score_document doc_tea_time [''tea'', ''time''] ''tea time'' = round_double (15 + 15)"
    by (simp only: g)
  from a b c d e f g h i show ?thesis by simp
qed

text \<open>C7 as stated fails, by rounding: for the query \<^verbatim>\<open>oil ba\<close> the chunk
  \<^verbatim>\<open>Oil bath for the scalp and hair\<close> scores 21.928571428571427 and the chunk
  \<^verbatim>\<open>Oil, bath for the scalp and hair\<close>, with the same tokens and metadata, scores
  6.928571428571429: less than 15 apart.\<close>

theorem phrase_bonus_below_fifteen:
  "tokenize (lower (content doc_scalp)) = tokenize (lower (content doc_scalp_comma))
   \<and> metadata doc_scalp = metadata doc_scalp_comma
   \<and> tokenize (lower (content doc_scalp)) \<noteq> []
   \<and> sublist (lower ''oil ba'') (lower (content doc_scalp))
   \<and> \<not> sublist (lower ''oil ba'') (lower (content doc_scalp_comma))
   \<and> score_document doc_scalp (tokenize (lower ''oil ba'')) (lower ''oil ba'')
       = 6172344132155099 / 281474976710656
   \<and> score_document doc_scalp_comma (tokenize (lower ''oil ba'')) (lower ''oil ba'')
       = 3900438962990519 / 562949953421312
   \<and> score_document doc_scalp (tokenize (lower ''oil ba'')) (lower ''oil ba'')
       < score_document doc_scalp_comma (tokenize (lower ''oil ba'')) (lower ''oil ba'') + 15"
proof -
  have a: "tokenize (lower (content doc_scalp)) = tokenize (lower (content doc_scalp_comma))"
    by code_simp
  have b: "metadata doc_scalp = metadata doc_scalp_comma" by code_simp
  have c: "tokenize (lower (content doc_scalp)) \<noteq> []" by code_simp
  have d: "sublist (lower ''oil ba'') (lower (content doc_scalp))" by code_simp
  have e: "\<not> sublist (lower ''oil ba'') (lower (content doc_scalp_comma))" by code_simp
  have f: "score_document doc_scalp (tokenize (lower ''oil ba'')) (lower ''oil ba'')
       = 6172344132155099 / 281474976710656" by code_simp
  have g: "score_document doc_scalp_comma (tokenize (lower ''oil ba'')) (lower ''oil ba'')
       = 3900438962990519 / 562949953421312" by code_simp
  have h: "(6172344132155099 / 281474976710656 :: rat) < 3900438962990519 / 562949953421312 + 15"
    by simp
  from a b c d e f g h show ?thesis by simp
qed

section \<open>Properties of answering\<close>

text \<open>C5: whenever retrieval yields no result, and so whenever the corpus has not been
  loaded, \<^verbatim>\<open>answer_user_query\<close> returns, without raising, the fixed answer text, no
  citation and the confidence \<^verbatim>\<open>low\<close>.\<close>

theorem answer_no_results:
  assumes "retrieve st query 4 = [] \<or> \<not> corpus_loaded st"
  shows "answer_user_query st query = Inr no_info"
proof -
  have "retrieve st query 4 = []"
    using assms by (auto simp: retrieve_def)
  then show ?thesis
    by (simp add: answer_user_query_def no_info_def)
qed

theorem answer_no_results_witness:
  "\<not> corpus_loaded init \<and> answer_user_query init ''stress and sleep'' = Inr no_info
   \<and> retrieve st_hello ''tea'' 4 = [] \<and> answer_user_query st_hello ''tea'' = Inr no_info"
proof -
  have a: "\<not> corpus_loaded init" by (simp add: init_def)
  have b: "retrieve st_hello ''tea'' 4 = []" by code_simp
  from answer_no_results [of init "''stress and sleep''"] a
  have "answer_user_query init ''stress and sleep'' = Inr no_info" by simp
  moreover from answer_no_results [of st_hello "''tea''"] b
  have "answer_user_query st_hello ''tea'' = Inr no_info" by simp
  ultimately show ?thesis using a b by simp
qed

section \<open>Properties of the markdown chunker\<close>

lemma NL_not_CR [simp]: "NL \<noteq> CR" "CR \<noteq> NL"
  by (simp_all add: NL_def CR_def)

lemma is_space_NL [simp]: "is_space NL"
  by (simp add: is_space_def NL_def)

lemma is_space_CR [simp]: "is_space CR"
  by (simp add: is_space_def CR_def)

lemma heading_marker_cases:
  assumes "heading_marker m"
  obtains w ws where "m = NL # CHR ''#'' # CHR ''#'' # w # ws" "is_space w" "list_all is_space ws"
  | w ws where "m = CR # NL # CHR ''#'' # CHR ''#'' # w # ws" "is_space w" "list_all is_space ws"
proof -
  define t where "t = (case m of [] \<Rightarrow> [] | c # cs \<Rightarrow> if c = CR then cs else m)"
  from assms have t3: "take 3 t = [NL, CHR ''#'', CHR ''#'']" and d: "drop 3 t \<noteq> []"
    and sp: "list_all is_space (drop 3 t)"
    by (simp_all add: heading_marker_def t_def Let_def)
  from d obtain w ws where dw: "drop 3 t = w # ws" by (cases "drop 3 t") auto
  have "t = take 3 t @ drop 3 t" by simp
  with t3 dw have t: "t = NL # CHR ''#'' # CHR ''#'' # w # ws" by simp
  from sp dw have w: "is_space w" and ws: "list_all is_space ws" by simp_all
  show thesis
  proof (cases m)
    case Nil
    with t show ?thesis by (simp add: t_def)
  next
    case (Cons c cs)
    show ?thesis
    proof (cases "c = CR")
      case True
      with Cons t have "m = CR # NL # CHR ''#'' # CHR ''#'' # w # ws" by (simp add: t_def)
      with w ws that(2) show ?thesis by blast
    next
      case False
      with Cons t have "m = NL # CHR ''#'' # CHR ''#'' # w # ws" by (simp add: t_def)
      with w ws that(1) show ?thesis by blast
    qed
  qed
qed

lemma heading_at_None_iff: "heading_at s = None \<longleftrightarrow> \<not> heading_starts s"
proof -
  define t where "t = (case s of [] \<Rightarrow> [] | c # cs \<Rightarrow> if c = CR then cs else s)"
  have a: "heading_at s =
      (case t of n # a # b # w # rest \<Rightarrow>
         if n = NL \<and> a = CHR ''#'' \<and> b = CHR ''#'' \<and> is_space w
         then Some (dropWhile is_space rest) else None
       | _ \<Rightarrow> None)"
    by (simp add: heading_at_def t_def Let_def)
  have b: "heading_starts s \<longleftrightarrow> take 3 t = [NL, CHR ''#'', CHR ''#'']
         \<and> (case drop 3 t of [] \<Rightarrow> False | w # r \<Rightarrow> is_space w)"
    by (simp add: heading_starts_def t_def Let_def)
  show ?thesis
    unfolding a b by (auto split: list.splits)
qed

lemma strip_nonempty_iff: "strip s \<noteq> [] \<longleftrightarrow> \<not> list_all is_space s"
proof
  assume n: "strip s \<noteq> []"
  have "dropWhile is_space s \<noteq> []"
  proof
    assume "dropWhile is_space s = []"
    then have "strip s = []"
      unfolding strip_def strip_by_def by (simp only: rev.simps dropWhile.simps)
    with n show False by simp
  qed
  then show "\<not> list_all is_space s" by (simp add: list_all_iff)
next
  assume "\<not> list_all is_space s"
  then have d: "dropWhile is_space s \<noteq> []" by (simp add: list_all_iff)
  then have "\<not> is_space (hd (dropWhile is_space s))" by (rule hd_dropWhile)
  moreover from d have "hd (dropWhile is_space s) \<in> set (rev (dropWhile is_space s))" by simp
  ultimately have "dropWhile is_space (rev (dropWhile is_space s)) \<noteq> []"
    by (auto simp del: set_rev)
  then show "strip s \<noteq> []" by (simp add: strip_def strip_by_def)
qed

lemma dropWhile_spaces_append:
  "list_all is_space ws \<Longrightarrow> not_starts_space s \<Longrightarrow> dropWhile is_space (ws @ s) = s"
  by (cases s) (auto simp: not_starts_space_def list_all_iff dropWhile_append2)

lemma heading_at_marker:
  assumes "heading_marker m" "not_starts_space s"
  shows "heading_at (m @ s) = Some s"
  using assms(1)
proof (cases rule: heading_marker_cases)
  case (1 w ws)
  with assms(2) show ?thesis
    by (simp add: heading_at_def dropWhile_spaces_append)
next
  case (2 w ws)
  with assms(2) show ?thesis
    by (simp add: heading_at_def dropWhile_spaces_append)
qed

lemma split_headings_no_heading:
  "no_heading_within x [] \<Longrightarrow> split_headings acc x = [rev acc @ x]"
proof (induction x arbitrary: acc)
  case Nil
  show ?case by (simp add: split_headings.simps [of acc "[]"] heading_at_def)
next
  case (Cons c x)
  then have "heading_at (c # x) = None" and "no_heading_within x []"
    by (simp_all add: heading_at_None_iff)
  with Cons.IH [of "c # acc"] show ?case
    by (simp add: split_headings.simps [of acc "c # x"])
qed

lemma split_headings_at_marker:
  assumes "heading_marker m" "not_starts_space s"
  shows "no_heading_within x (m @ s) \<Longrightarrow>
     split_headings acc (x @ m @ s) = (rev acc @ x) # split_headings [] s"
proof (induction x arbitrary: acc)
  case Nil
  show ?case
    by (simp add: split_headings.simps [of acc "m @ s"] heading_at_marker [OF assms])
next
  case (Cons c x)
  then have "heading_at (c # x @ m @ s) = None" and "no_heading_within x (m @ s)"
    by (simp_all add: heading_at_None_iff)
  with Cons.IH [of "c # acc"] show ?case
    by (simp add: split_headings.simps [of acc "c # x @ m @ s"])
qed

lemma split_headings_two:
  assumes "heading_marker m1" "heading_marker m2"
    and "starts_nonspace s1" "not_starts_space s2"
    and "no_heading_within pre (m1 @ s1 @ m2 @ s2)"
    and "no_heading_within s1 (m2 @ s2)"
    and "no_heading_within s2 []"
  shows "split_headings [] (pre @ m1 @ s1 @ m2 @ s2) = [pre, s1, s2]"
proof -
  have sn: "not_starts_space (s1 @ m2 @ s2)"
    using assms(3) by (cases s1) (auto simp: starts_nonspace_def not_starts_space_def)
  have "split_headings [] (pre @ m1 @ s1 @ m2 @ s2) = pre # split_headings [] (s1 @ m2 @ s2)"
    using split_headings_at_marker [OF assms(1) sn, of pre "[]"] assms(5) by simp
  also have "split_headings [] (s1 @ m2 @ s2) = s1 # split_headings [] s2"
    using split_headings_at_marker [OF assms(2) assms(4), of s1 "[]"] assms(6) by simp
  also have "split_headings [] s2 = [s2]"
    using split_headings_no_heading [OF assms(7), of "[]"] by simp
  finally show ?thesis .
qed

text \<open>C9, as the code has it: the white-space run of the heading pattern also takes line
  feeds. Let a markdown text consist of a leading text \<^verbatim>\<open>pre\<close> that is not all white
  space, a heading marker, the text \<^verbatim>\<open>s1\<close>, a second heading marker and the text
  \<^verbatim>\<open>s2\<close>, where \<^verbatim>\<open>s1\<close> starts with a character that is not white space, so that
  something other than white space stands between the two markers, \<^verbatim>\<open>s2\<close> is empty or
  starts with such a character, and the heading pattern matches nowhere else. Then the
  markdown chunker returns exactly three chunks, in this order: the chunk \<^verbatim>\<open>intro\<close>
  with the trimmed leading text, and the chunks of the two sections, whose section ids
  are \<^verbatim>\<open>section_1_\<close> and \<^verbatim>\<open>section_2_\<close> followed by the slug of the title line.\<close>

theorem chunk_markdown_two_headings:
  assumes "body = pre @ m1 @ s1 @ m2 @ s2"
    and "heading_marker m1" "heading_marker m2"
    and "starts_nonspace s1" "not_starts_space s2"
    and "no_heading_within pre (m1 @ s1 @ m2 @ s2)"
    and "no_heading_within s1 (m2 @ s2)"
    and "no_heading_within s2 []"
    and "\<not> list_all is_space pre"
  shows "chunk_markdown did body meta =
           [\<lparr>doc_id = did, section_id = ''intro'', content = strip pre, metadata = meta\<rparr>,
            markdown_section did meta (1, s1), markdown_section did meta (2, s2)]
       \<and> map section_id (chunk_markdown did body meta) =
           [''intro'',
            ''section_1_'' @ slugify (strip (takeWhile (\<lambda>c. c \<noteq> NL) s1)),
            ''section_2_'' @ slugify (strip (takeWhile (\<lambda>c. c \<noteq> NL) s2))]"
proof -
  have sp: "split_headings [] body = [pre, s1, s2]"
    unfolding assms(1) using assms(2-8) by (rule split_headings_two)
  have ne: "strip pre \<noteq> []"
    using assms(9) by (simp add: strip_nonempty_iff)
  have c: "chunk_markdown did body meta =
           [\<lparr>doc_id = did, section_id = ''intro'', content = strip pre, metadata = meta\<rparr>,
            markdown_section did meta (1, s1), markdown_section did meta (2, s2)]"
    using ne by (simp add: chunk_markdown_def sp Let_def numeral_2_eq_2)
  have n1: "str_nat (Suc 0) = ''1''" and n2: "str_nat 2 = ''2''" by code_simp+
  show ?thesis
    unfolding c by (simp add: markdown_section_def split_first_line_def Let_def n1 n2)
qed

theorem chunk_markdown_two_headings_witness:
  "md_body = '' Hi '' @ (NL # ''##  '') @ (''A b '' @ [NL] @ '' x '') @ (NL # ''## '')
       @ (''C'' @ [NL] @ ''y'' @ [NL])
   \<and> heading_marker (NL # ''##  '') \<and> heading_marker (NL # ''## '')
   \<and> starts_nonspace (''A b '' @ [NL] @ '' x '') \<and> not_starts_space (''C'' @ [NL] @ ''y'' @ [NL])
   \<and> no_heading_within '' Hi '' ((NL # ''##  '') @ (''A b '' @ [NL] @ '' x '') @ (NL # ''## '')
        @ (''C'' @ [NL] @ ''y'' @ [NL]))
   \<and> no_heading_within (''A b '' @ [NL] @ '' x '') ((NL # ''## '') @ (''C'' @ [NL] @ ''y'' @ [NL]))
   \<and> no_heading_within (''C'' @ [NL] @ ''y'' @ [NL]) []
   \<and> \<not> list_all is_space '' Hi ''
   \<and> chunk_markdown ''doc'' md_body [] =
       [\<lparr>doc_id = ''doc'', section_id = ''intro'', content = ''Hi'', metadata = []\<rparr>,
        \<lparr>doc_id = ''doc'', section_id = ''section_1_a_b'', content = ''## A b'' @ [NL, NL] @ ''x'',
         metadata = [(''section_title'', VStr ''A b'')]\<rparr>,
        \<lparr>doc_id = ''doc'', section_id = ''section_2_c'', content = ''## C'' @ [NL, NL] @ ''y'',
         metadata = [(''section_title'', VStr ''C'')]\<rparr>]
   \<and> md_last_untitled = ''Hi'' @ (NL # ''## '') @ ''A'' @ (NL # ''## '') @ []
   \<and> starts_nonspace ''A'' \<and> not_starts_space []
   \<and> no_heading_within ''Hi'' ((NL # ''## '') @ ''A'' @ (NL # ''## '') @ [])
   \<and> no_heading_within ''A'' ((NL # ''## '') @ [])
   \<and> \<not> list_all is_space ''Hi''
   \<and> map section_id (chunk_markdown ''doc'' md_last_untitled [])
       = [''intro'', ''section_1_a'', ''section_2_'']"
proof -
  have a: "md_body = '' Hi '' @ (NL # ''##  '') @ (''A b '' @ [NL] @ '' x '') @ (NL # ''## '')
       @ (''C'' @ [NL] @ ''y'' @ [NL])"
    by (simp add: md_body_def)
  have b1: "heading_marker (NL # ''##  '')" by code_simp
  have b2: "heading_marker (NL # ''## '')" by code_simp
  have c: "starts_nonspace (''A b '' @ [NL] @ '' x '')" by code_simp
  have d: "not_starts_space (''C'' @ [NL] @ ''y'' @ [NL])" by code_simp
  have e: "no_heading_within '' Hi '' ((NL # ''##  '') @ (''A b '' @ [NL] @ '' x '') @ (NL # ''## '')
        @ (''C'' @ [NL] @ ''y'' @ [NL]))"
    by code_simp
  have f: "no_heading_within (''A b '' @ [NL] @ '' x '') ((NL # ''## '') @ (''C'' @ [NL] @ ''y'' @ [NL]))"
    by code_simp
  have g: "no_heading_within (''C'' @ [NL] @ ''y'' @ [NL]) []" by code_simp
  have h: "\<not> list_all is_space '' Hi ''" by code_simp
  have i: "strip '' Hi '' = ''Hi''" by code_simp
  have j: "markdown_section ''doc'' [] (1, ''A b '' @ [NL] @ '' x '')
      = \<lparr>doc_id = ''doc'', section_id = ''section_1_a_b'', content = ''## A b'' @ [NL, NL] @ ''x'',
         metadata = [(''section_title'', VStr ''A b'')]\<rparr>"
    by code_simp
  have k: "markdown_section ''doc'' [] (2, ''C'' @ [NL] @ ''y'' @ [NL])
      = \<lparr>doc_id = ''doc'', section_id = ''section_2_c'', content = ''## C'' @ [NL, NL] @ ''y'',
         metadata = [(''section_title'', VStr ''C'')]\<rparr>"
    by code_simp
  note t = chunk_markdown_two_headings [OF a b1 b2 c d e f g h, of "''doc''" "[]"]
  from t [unfolded i j k]
  have "chunk_markdown ''doc'' md_body [] =
       [\<lparr>doc_id = ''doc'', section_id = ''intro'', content = ''Hi'', metadata = []\<rparr>,
        \<lparr>doc_id = ''doc'', section_id = ''section_1_a_b'', content = ''## A b'' @ [NL, NL] @ ''x'',
         metadata = [(''section_title'', VStr ''A b'')]\<rparr>,
        \<lparr>doc_id = ''doc'', section_id = ''section_2_c'', content = ''## C'' @ [NL, NL] @ ''y'',
         metadata = [(''section_title'', VStr ''C'')]\<rparr>]"
    by (rule conjunct1)
  note first = this
  have a2: "md_last_untitled = ''Hi'' @ (NL # ''## '') @ ''A'' @ (NL # ''## '') @ []"
    by (simp add: md_last_untitled_def)
  have c2: "starts_nonspace ''A''" by code_simp
  have d2: "not_starts_space []" by code_simp
  have e2: "no_heading_within ''Hi'' ((NL # ''## '') @ ''A'' @ (NL # ''## '') @ [])" by code_simp
  have f2: "no_heading_within ''A'' ((NL # ''## '') @ [])" by code_simp
  have g2: "no_heading_within [] []" by code_simp
  have h2: "\<not> list_all is_space ''Hi''" by code_simp
  have i2: "slugify (strip (takeWhile (\<lambda>c. c \<noteq> NL) ''A'')) = ''a''" by code_simp
  have j2: "slugify (strip (takeWhile (\<lambda>c. c \<noteq> NL) [])) = []" by code_simp
  note u = chunk_markdown_two_headings [OF a2 b2 b2 c2 d2 e2 f2 g2 h2, of "''doc''" "[]"]
  from u [unfolded i2 j2]
  have "map section_id (chunk_markdown ''doc'' md_last_untitled [])
       = [''intro'', ''section_1_'' @ ''a'', ''section_2_'' @ []]"
    by (rule conjunct2)
  then have second: "map section_id (chunk_markdown ''doc'' md_last_untitled [])
       = [''intro'', ''section_1_a'', ''section_2_'']" by simp
  from a b1 b2 c d e f g h first a2 c2 d2 e2 f2 h2 second show ?thesis by blast
qed

text \<open>C9 as stated fails: the text \<^verbatim>\<open>"Hi\n## \n## C\ny"\<close> has a leading line that is not
  blank and two heading lines, and the chunker returns two chunks, \<^verbatim>\<open>intro\<close> and
  \<^verbatim>\<open>section_1_c\<close>: the white space after the first \<^verbatim>\<open>##\<close> takes the line feed before
  the second.\<close>

theorem chunk_markdown_heading_swallowed:
  "map is_heading_line (split_lines md_empty_title) = [False, True, True, False]
   \<and> \<not> list_all is_space (hd (split_lines md_empty_title))
   \<and> map section_id (chunk_markdown ''doc'' md_empty_title []) = [''intro'', ''section_1_c'']"
  by code_simp

section \<open>Properties of the FAQ chunker\<close>

lemma split_blank_sublist: "split_blank s \<noteq> None \<longleftrightarrow> sublist [NL, NL] s"
proof (induction s rule: split_blank.induct)
  case 1
  show ?case by simp
next
  case (2 c)
  show ?case by (simp add: sublist_Cons_right)
next
  case (3 c d cs)
  have "sublist [NL, NL] (c # d # cs) \<longleftrightarrow> (c = NL \<and> d = NL) \<or> sublist [NL, NL] (d # cs)"
    by (auto simp: sublist_Cons_right)
  with 3 show ?case by auto
qed

lemma sublist_drop: "sublist xs (drop k s) \<Longrightarrow> sublist xs s"
  by (metis append_take_drop_id sublist_append_leftI sublist_order.order.trans sublist_order.order_refl)

lemma question_at_iff: "question_at s \<noteq> None \<longleftrightarrow> s \<noteq> [] \<and> sublist [NL, NL] (tl s)"
  using split_blank_sublist [of "tl s"]
  by (cases s) (auto simp: question_at_def)

lemma question_after_ws_complete:
  "question_at s \<noteq> None \<Longrightarrow> question_after_ws k s \<noteq> None"
  by (induction k) (auto split: option.splits)

lemma question_after_ws_sound:
  "question_after_ws k s \<noteq> None \<Longrightarrow> question_at s \<noteq> None"
proof (induction k)
  case 0
  then show ?case by simp
next
  case (Suc k)
  show ?case
  proof (cases "question_at (drop (Suc k) s)")
    case None
    with Suc show ?thesis by simp
  next
    case (Some p)
    then have d: "drop (Suc k) s \<noteq> []" and b: "sublist [NL, NL] (tl (drop (Suc k) s))"
      using question_at_iff [of "drop (Suc k) s"] by auto
    from d have "s \<noteq> []" by auto
    moreover have "tl (drop (Suc k) s) = drop (Suc k) (tl s)"
      by (simp add: drop_Suc tl_drop)
    with b have "sublist [NL, NL] (tl s)" by (auto dest: sublist_drop)
    ultimately show ?thesis using question_at_iff [of s] by blast
  qed
qed

lemma faq_match_at_iff: "faq_match_at s \<noteq> None \<longleftrightarrow> faq_block_at s"
proof (cases "faq_head_at s")
  case None
  then show ?thesis by (simp add: faq_match_at_def faq_block_at_def)
next
  case (Some r)
  let ?k = "length (takeWhile is_space r)"
  have "faq_match_at s \<noteq> None \<longleftrightarrow> question_after_ws ?k r \<noteq> None"
    using Some by (auto simp: faq_match_at_def split: option.splits prod.splits)
  also have "\<dots> \<longleftrightarrow> question_at r \<noteq> None"
    using question_after_ws_sound question_after_ws_complete by blast
  also have "\<dots> \<longleftrightarrow> faq_block_at s"
    using Some question_at_iff [of r] by (simp add: faq_block_at_def)
  finally show ?thesis .
qed

lemma findall_faq_empty_iff: "findall_faq body = [] \<longleftrightarrow> \<not> faq_block_somewhere body"
proof (induction body rule: findall_faq.induct)
  case 1
  show ?case by (simp add: findall_faq.simps)
next
  case (2 c cs)
  show ?case
  proof (cases "faq_match_at (c # cs)")
    case None
    moreover from None have "\<not> faq_block_at (c # cs)"
      using faq_match_at_iff [of "c # cs"] by simp
    ultimately show ?thesis using 2 by (simp add: findall_faq.simps)
  next
    case (Some m)
    moreover from Some have "faq_block_at (c # cs)"
      using faq_match_at_iff [of "c # cs"] by simp
    ultimately show ?thesis by (auto simp: findall_faq.simps split: prod.splits)
  qed
qed

lemma str_nat_1: "str_nat (Suc 0) = ''1''"
  by code_simp

lemma chunk_faq_fallback_iff:
  "chunk_faq did body meta = [faq_all_chunk did body meta] \<longleftrightarrow> findall_faq body = []"
proof (cases "findall_faq body")
  case Nil
  then show ?thesis by (simp add: chunk_faq_def faq_all_chunk_def)
next
  case (Cons m ms)
  obtain q a where m: "m = (q, a)" by (cases m)
  have "section_id (hd (chunk_faq did body meta)) = ''faq_1_'' @ slugify q"
    using Cons m by (simp add: chunk_faq_def faq_entry_def str_nat_1)
  then have "chunk_faq did body meta \<noteq> [faq_all_chunk did body meta]"
    by (auto simp: faq_all_chunk_def)
  with Cons show ?thesis by simp
qed

lemma split_blank_suffix: "split_blank s = Some (q, r) \<Longrightarrow> suffix r s"
proof (induction s arbitrary: q rule: split_blank.induct)
  case 1
  then show ?case by simp
next
  case (2 c)
  then show ?case by simp
next
  case (3 c d cs)
  show ?case
  proof (cases "c = NL \<and> d = NL")
    case True
    with 3(2) have "r = cs" by simp
    then show ?thesis by (simp add: suffix_ConsI)
  next
    case False
    with 3(2) obtain q' where "split_blank (d # cs) = Some (q', r)" by auto
    from 3(1) [OF False this] show ?thesis by (rule suffix_ConsI)
  qed
qed

lemma question_at_suffix: "question_at s = Some (q, r) \<Longrightarrow> suffix r s"
  by (auto simp: question_at_def split: list.splits dest!: split_blank_suffix intro: suffix_ConsI)

lemma question_after_ws_suffix: "question_after_ws k s = Some (q, r) \<Longrightarrow> suffix r s"
proof (induction k)
  case 0
  then show ?case by (simp add: question_at_suffix)
next
  case (Suc k)
  show ?case
  proof (cases "question_at (drop (Suc k) s)")
    case None
    with Suc show ?thesis by simp
  next
    case (Some p)
    with Suc.prems have "question_at (drop (Suc k) s) = Some (q, r)" by simp
    then have "suffix r (drop (Suc k) s)" by (rule question_at_suffix)
    then show ?thesis using suffix_drop suffix_order.trans by blast
  qed
qed

lemma answer_at_suffix: "answer_at s = (a, r) \<Longrightarrow> suffix r s"
proof (induction s arbitrary: a)
  case Nil
  then show ?case by simp
next
  case (Cons c cs)
  show ?case
  proof (cases "next_faq_heading (c # cs)")
    case True
    with Cons.prems show ?thesis by simp
  next
    case False
    with Cons.prems obtain a' where "answer_at cs = (a', r)"
      by (auto split: prod.splits)
    from Cons.IH [OF this] show ?thesis by (rule suffix_ConsI)
  qed
qed

lemma faq_head_at_suffix: "faq_head_at s = Some r \<Longrightarrow> suffix r s"
proof -
  assume a: "faq_head_at s = Some r"
  then obtain s1 where s: "s = CHR ''#'' # CHR ''#'' # s1"
    by (auto simp: faq_head_at_def split: list.splits if_splits)
  let ?s2 = "dropWhile is_space s1"
  from a s obtain c where "dropWhile is_digit ?s2 = c # r"
    by (auto simp: faq_head_at_def Let_def split: list.splits if_splits)
  then have "suffix r (dropWhile is_digit ?s2)" by (simp add: suffix_ConsI)
  also have "suffix \<dots> ?s2" by (rule suffix_dropWhile)
  also have "suffix \<dots> s1" by (rule suffix_dropWhile)
  also have "suffix \<dots> s" unfolding s by (simp add: suffix_ConsI)
  finally show ?thesis .
qed

lemma faq_match_at_suffix: "faq_match_at s = Some (q, a, r) \<Longrightarrow> suffix r s"
proof -
  assume m: "faq_match_at s = Some (q, a, r)"
  then obtain s4 where h: "faq_head_at s = Some s4"
    by (auto simp: faq_match_at_def split: option.splits)
  with m obtain s5 where
    qq: "question_after_ws (length (takeWhile is_space s4)) s4 = Some (q, s5)"
    and aa: "answer_at s5 = (a, r)"
    by (auto simp: faq_match_at_def split: option.splits prod.splits)
  have "suffix r s5" using aa by (rule answer_at_suffix)
  also have "suffix \<dots> s4" using qq by (rule question_after_ws_suffix)
  also have "suffix \<dots> s" using h by (rule faq_head_at_suffix)
  finally show ?thesis .
qed

lemma findall_faq_positions:
  "(q, a) \<in> set (findall_faq body)
     \<Longrightarrow> \<exists>t r. suffix t body \<and> faq_match_at t = Some (q, a, r)"
proof (induction body rule: findall_faq.induct)
  case 1
  then show ?case by (simp add: findall_faq.simps)
next
  case (2 c cs)
  show ?case
  proof (cases "faq_match_at (c # cs)")
    case None
    with "2.prems" have "(q, a) \<in> set (findall_faq cs)" by (simp add: findall_faq.simps)
    with 2 None obtain t r where "suffix t cs" and m: "faq_match_at t = Some (q, a, r)"
      by blast
    then have "suffix t (c # cs)" by (simp add: suffix_ConsI)
    with m show ?thesis by blast
  next
    case (Some m)
    obtain q' a' r' where m: "m = (q', a', r')" by (cases m)
    with Some "2.prems" have "(q, a) = (q', a') \<or> (q, a) \<in> set (findall_faq r')"
      by (simp add: findall_faq.simps)
    then show ?thesis
    proof
      assume "(q, a) = (q', a')"
      with Some m have "faq_match_at (c # cs) = Some (q, a, r')" by simp
      then show ?thesis using suffix_order.refl by blast
    next
      assume "(q, a) \<in> set (findall_faq r')"
      with 2 Some m obtain t r where t: "suffix t r'" and mm: "faq_match_at t = Some (q, a, r)"
        by blast
      from Some m have "suffix r' (c # cs)" by (simp add: faq_match_at_suffix)
      with t have "suffix t (c # cs)" by (rule suffix_order.trans)
      with mm show ?thesis by blast
    qed
  qed
qed

lemma enumerate_from_snd: "(i, x) \<in> set (enumerate_from n xs) \<Longrightarrow> x \<in> set xs"
  by (induction xs arbitrary: n) auto

lemma chunk_faq_chunks:
  assumes "c \<in> set (chunk_faq did body meta)"
  shows "c = faq_all_chunk did body meta
       \<or> (\<exists>i q a t r. c = faq_entry did meta (i, q, a) \<and> suffix t body \<and> faq_block_at t
             \<and> faq_match_at t = Some (q, a, r))"
proof (cases "findall_faq body = []")
  case True
  with assms show ?thesis by (simp add: chunk_faq_def faq_all_chunk_def)
next
  case False
  with assms obtain i q a where c: "c = faq_entry did meta (i, q, a)"
    and "(i, q, a) \<in> set (enumerate_from 1 (findall_faq body))"
    by (auto simp: chunk_faq_def)
  then have "(q, a) \<in> set (findall_faq body)" by (auto dest: enumerate_from_snd)
  from findall_faq_positions [OF this] obtain t r
    where t: "suffix t body" and m: "faq_match_at t = Some (q, a, r)" by blast
  from m have "faq_block_at t" using faq_match_at_iff [of t] by simp
  with c t m show ?thesis by blast
qed

text \<open>C10, as the code has it: the pattern is compiled with \<^verbatim>\<open>re.S\<close>, so the question
  group runs over line feeds up to the first \<^verbatim>\<open>\n\n\<close>. Every chunk the FAQ chunker
  returns is the chunk \<^verbatim>\<open>faq_all\<close> with the entire content, or the chunk of a match of
  the pattern at a position of the text where a head \<^verbatim>\<open>## <n>.\<close> stands and a \<^verbatim>\<open>\n\n\<close>
  occurs somewhere after the first character that follows the head; the heading line
  itself need not be followed by a blank line. A head inside the question of an
  earlier block gives no chunk of its own. The chunker returns the single chunk
  \<^verbatim>\<open>faq_all\<close> exactly when no position of the text has such a block.\<close>

theorem chunk_faq_blocks:
  "(\<forall>c\<in>set (chunk_faq did body meta).
       c = faq_all_chunk did body meta
       \<or> (\<exists>i q a t r. c = faq_entry did meta (i, q, a) \<and> suffix t body \<and> faq_block_at t
             \<and> faq_match_at t = Some (q, a, r)))
   \<and> (chunk_faq did body meta = [faq_all_chunk did body meta] \<longleftrightarrow> \<not> faq_block_somewhere body)"
  using chunk_faq_chunks chunk_faq_fallback_iff findall_faq_empty_iff by blast

theorem chunk_faq_blocks_witness:
  "\<not> faq_block_somewhere ''# FAQ''
   \<and> chunk_faq ''f'' ''# FAQ'' [] = [faq_all_chunk ''f'' ''# FAQ'' []]
   \<and> faq_block_somewhere faq_two_line_question
   \<and> chunk_faq ''f'' faq_two_line_question [] \<noteq> [faq_all_chunk ''f'' faq_two_line_question []]
   \<and> chunk_faq ''f'' faq_two_line_question []
       = [faq_entry ''f'' [] (1, ''Q'' @ [NL] @ ''A'', ''B'')]
   \<and> faq_block_at faq_two_line_question
   \<and> faq_match_at faq_two_line_question = Some (''Q'' @ [NL] @ ''A'', ''B'', [])
   \<and> faq_block_at (drop 8 faq_swallowed_head)
   \<and> map section_id (chunk_faq ''f'' faq_swallowed_head []) = [''faq_1_a_2_b'']"
proof -
  have a: "\<not> faq_block_somewhere ''# FAQ''" by code_simp
  have b: "faq_match_at faq_two_line_question = Some (''Q'' @ [NL] @ ''A'', ''B'', [])"
    by code_simp
  have c: "faq_block_somewhere faq_two_line_question" by code_simp
  have d: "chunk_faq ''f'' faq_two_line_question []
       = [faq_entry ''f'' [] (1, ''Q'' @ [NL] @ ''A'', ''B'')]" by code_simp
  have e: "faq_block_at faq_two_line_question" by code_simp
  have f: "faq_block_at (drop 8 faq_swallowed_head)" by code_simp
  have g: "map section_id (chunk_faq ''f'' faq_swallowed_head []) = [''faq_1_a_2_b'']"
    by code_simp
  from chunk_faq_blocks [of "''f''" "''# FAQ''" "[]"] a
  have h: "chunk_faq ''f'' ''# FAQ'' [] = [faq_all_chunk ''f'' ''# FAQ'' []]" by blast
  from chunk_faq_blocks [of "''f''" faq_two_line_question "[]"] c
  have i: "chunk_faq ''f'' faq_two_line_question [] \<noteq> [faq_all_chunk ''f'' faq_two_line_question []]"
    by blast
  from a b c d e f g h i show ?thesis by blast
qed

text \<open>C10 as stated fails: in \<^verbatim>\<open>"## 1. Q\nA\n\nB"\<close> no numbered heading line is
  immediately followed by a blank line, and the chunker returns the chunk
  \<^verbatim>\<open>faq_1_q_a\<close>, whose question is \<^verbatim>\<open>"Q\nA"\<close>, not the chunk \<^verbatim>\<open>faq_all\<close>.\<close>

theorem chunk_faq_question_over_two_lines:
  "\<not> heading_line_then_blank faq_two_line_question
   \<and> chunk_faq ''f'' faq_two_line_question []
       \<noteq> [faq_all_chunk ''f'' faq_two_line_question []]
   \<and> map section_id (chunk_faq ''f'' faq_two_line_question []) = [''faq_1_q_a'']"
  by code_simp

section \<open>Chunk keys\<close>

lemma digit_char_inj: "a < 10 \<Longrightarrow> b < 10 \<Longrightarrow> digit_char a = digit_char b \<Longrightarrow> a = b"
proof -
  assume a: "a < 10" and b: "b < 10" and e: "digit_char a = digit_char b"
  from e have "(of_char (digit_char a) :: nat) = of_char (digit_char b)" by simp
  then have "(48 + a) mod 256 = (48 + b) mod 256" by (simp add: digit_char_def)
  with a b show ?thesis by simp
qed

lemma digit_char_not_underscore: "d < 10 \<Longrightarrow> digit_char d \<noteq> CHR ''_''"
proof
  assume d: "d < 10" and e: "digit_char d = CHR ''_''"
  from e have "(of_char (digit_char d) :: nat) = of_char (CHR ''_'')" by simp
  then have "(48 + d) mod 256 = 95" by (simp add: digit_char_def)
  with d show False by simp
qed

lemma str_nat_not_Nil: "str_nat n \<noteq> []"
  by (subst str_nat.simps) simp

lemma str_nat_no_underscore: "CHR ''_'' \<notin> set (str_nat n)"
proof (induction n rule: str_nat.induct)
  case (1 n)
  show ?case
  proof (cases "n < 10")
    case True
    then show ?thesis
      using digit_char_not_underscore [of n] by (subst str_nat.simps) auto
  next
    case False
    have "n mod 10 < 10" by simp
    from digit_char_not_underscore [OF this] 1 False show ?thesis
      by (subst str_nat.simps) auto
  qed
qed

lemma str_nat_inj: "str_nat n = str_nat m \<Longrightarrow> n = m"
proof (induction n arbitrary: m rule: str_nat.induct)
  case (1 n)
  show ?case
  proof (cases "n < 10")
    case n: True
    show ?thesis
    proof (cases "m < 10")
      case True
      with n "1.prems" show ?thesis
        by (simp add: str_nat.simps [of n] str_nat.simps [of m] digit_char_inj)
    next
      case False
      with n "1.prems" show ?thesis
        using str_nat_not_Nil [of "m div 10"]
        by (simp add: str_nat.simps [of n] str_nat.simps [of m])
    qed
  next
    case n: False
    show ?thesis
    proof (cases "m < 10")
      case True
      with n "1.prems" show ?thesis
        using str_nat_not_Nil [of "n div 10"]
        by (simp add: str_nat.simps [of n] str_nat.simps [of m])
    next
      case False
      with n "1.prems" have e: "str_nat (n div 10) = str_nat (m div 10)"
        and d: "digit_char (n mod 10) = digit_char (m mod 10)"
        by (simp_all add: str_nat.simps [of n] str_nat.simps [of m])
      from "1.IH" [OF n e] have "n div 10 = m div 10" .
      moreover from d have "n mod 10 = m mod 10" by (simp add: digit_char_inj)
      ultimately show ?thesis by (metis div_mult_mod_eq)
    qed
  qed
qed

lemma takeWhile_before_sep:
  "x \<notin> set xs \<Longrightarrow> takeWhile (\<lambda>c. c \<noteq> x) (xs @ x # ys) = xs"
  by (induction xs) auto

lemma numbered_id_inj:
  assumes "numbered_id p i a = numbered_id p j b"
  shows "i = j"
proof -
  have e: "str_nat i @ CHR ''_'' # a = str_nat j @ CHR ''_'' # b"
    using assms unfolding numbered_id_def
    by (simp only: same_append_eq append_Cons append_Nil)
  have "str_nat i = takeWhile (\<lambda>c. c \<noteq> CHR ''_'') (str_nat i @ CHR ''_'' # a)"
    by (simp only: takeWhile_before_sep [OF str_nat_no_underscore])
  also have "\<dots> = takeWhile (\<lambda>c. c \<noteq> CHR ''_'') (str_nat j @ CHR ''_'' # b)"
    by (simp only: e)
  also have "\<dots> = str_nat j"
    by (simp only: takeWhile_before_sep [OF str_nat_no_underscore])
  finally show ?thesis by (rule str_nat_inj)
qed

lemma enumerate_from_fst_ge: "p \<in> set (enumerate_from n xs) \<Longrightarrow> n \<le> fst p"
proof (induction xs arbitrary: n)
  case Nil
  then show ?case by simp
next
  case (Cons x xs)
  from Cons.prems have "p = (n, x) \<or> p \<in> set (enumerate_from (Suc n) xs)" by simp
  then show ?case
  proof
    assume "p = (n, x)"
    then show ?thesis by simp
  next
    assume "p \<in> set (enumerate_from (Suc n) xs)"
    from Cons.IH [OF this] show ?thesis by simp
  qed
qed

lemma enumerate_from_distinct: "distinct (map fst (enumerate_from n xs))"
proof (induction xs arbitrary: n)
  case Nil
  show ?case by simp
next
  case (Cons x xs)
  have "n \<notin> fst ` set (enumerate_from (Suc n) xs)"
  proof
    assume "n \<in> fst ` set (enumerate_from (Suc n) xs)"
    then obtain p where "p \<in> set (enumerate_from (Suc n) xs)" and "fst p = n" by auto
    with enumerate_from_fst_ge [of p "Suc n" xs] show False by simp
  qed
  with Cons.IH [of "Suc n"] show ?case by simp
qed

lemma distinct_map_via:
  "distinct (map g l) \<Longrightarrow> (\<And>a b. a \<in> set l \<Longrightarrow> b \<in> set l \<Longrightarrow> f a = f b \<Longrightarrow> g a = g b)
     \<Longrightarrow> distinct (map f l)"
proof (induction l)
  case Nil
  show ?case by simp
next
  case (Cons x l)
  have "f x \<notin> f ` set l"
  proof
    assume "f x \<in> f ` set l"
    then obtain y where y: "y \<in> set l" and "f x = f y" by auto
    with Cons.prems(2) [of x y] have "g x = g y" by simp
    with y Cons.prems(1) show False by auto
  qed
  moreover have "distinct (map f l)"
    using Cons by auto
  ultimately show ?case by simp
qed

lemma distinct_numbered_ids:
  "distinct (map (\<lambda>(i, x). numbered_id p i (g x)) (enumerate_from n xs))"
proof (rule distinct_map_via [where g = fst])
  show "distinct (map fst (enumerate_from n xs))"
    by (rule enumerate_from_distinct)
next
  fix a b :: "nat \<times> 'a"
  assume "(case a of (i, x) \<Rightarrow> numbered_id p i (g x))
        = (case b of (i, x) \<Rightarrow> numbered_id p i (g x))"
  then show "fst a = fst b"
    by (cases a, cases b) (auto dest: numbered_id_inj)
qed

lemma markdown_section_ids:
  "map (section_id \<circ> markdown_section did meta) l
     = map (\<lambda>(i, sec). numbered_id ''section_'' i (slugify (strip (fst (split_first_line sec))))) l"
  by (rule map_cong) (auto simp: markdown_section_def Let_def numbered_id_def)

lemma faq_entry_ids:
  "map (section_id \<circ> faq_entry did meta) l
     = map (\<lambda>(i, qa). numbered_id ''faq_'' i (slugify (fst qa))) l"
  by (rule map_cong) (auto simp: faq_entry_def numbered_id_def)

lemma section_id_not_intro:
  "''intro'' \<notin> set (map (\<lambda>(i, sec). numbered_id ''section_'' i (g sec)) l)"
  by (auto simp: numbered_id_def)

lemma chunk_markdown_distinct: "distinct (map section_id (chunk_markdown did body meta))"
proof -
  define secs where "secs = enumerate_from 1 (tl (split_headings [] body))"
  define ids where "ids = map (\<lambda>(i, sec). numbered_id ''section_'' i
      (slugify (strip (fst (split_first_line sec))))) secs"
  have d: "distinct ids"
    unfolding ids_def secs_def by (rule distinct_numbered_ids)
  have n: "''intro'' \<notin> set ids"
    unfolding ids_def by (rule section_id_not_intro)
  have "map section_id (chunk_markdown did body meta) = ids
      \<or> map section_id (chunk_markdown did body meta) = ''intro'' # ids"
    by (simp add: chunk_markdown_def Let_def markdown_section_ids ids_def secs_def)
  with d n show ?thesis by auto
qed

lemma chunk_faq_distinct: "distinct (map section_id (chunk_faq did body meta))"
proof (cases "findall_faq body = []")
  case True
  then show ?thesis by (simp add: chunk_faq_def)
next
  case False
  then have "map section_id (chunk_faq did body meta)
      = map (\<lambda>(i, qa). numbered_id ''faq_'' i (slugify (fst qa)))
          (enumerate_from 1 (findall_faq body))"
    by (simp add: chunk_faq_def Let_def faq_entry_ids)
  then show ?thesis by (simp only: distinct_numbered_ids)
qed

lemma chunk_csv_distinct:
  assumes "distinct (map (\<lambda>row. py_str (product_key h row)) rows)"
  shows "distinct (map section_id (chunk_csv h did rows meta))"
proof -
  have "map section_id (chunk_csv h did rows meta)
      = map (\<lambda>row. ''product_'' @ py_str (product_key h row)) rows"
    by (simp add: chunk_csv_def csv_row_def Let_def comp_def)
  moreover have "distinct (map (\<lambda>row. ''product_'' @ py_str (product_key h row)) rows)"
    using assms by (rule distinct_map_via) simp
  ultimately show ?thesis by simp
qed

lemma chunk_markdown_doc_id: "c \<in> set (chunk_markdown did body meta) \<Longrightarrow> doc_id c = did"
  by (auto simp: chunk_markdown_def Let_def markdown_section_def split: if_splits)

lemma chunk_faq_doc_id: "c \<in> set (chunk_faq did body meta) \<Longrightarrow> doc_id c = did"
  by (auto simp: chunk_faq_def Let_def faq_entry_def split: if_splits)

lemma chunk_csv_doc_id: "c \<in> set (chunk_csv h did rows meta) \<Longrightarrow> doc_id c = did"
  by (auto simp: chunk_csv_def csv_row_def Let_def)

lemma chunk_document_cases:
  assumes "chunk_document h doc = Inr cs"
  obtains did body where "d_id doc = Some did" "d_content doc = Some (Text body)"
      "cs = chunk_markdown did body (meta_of doc)"
  | did body where "d_id doc = Some did" "d_content doc = Some (Text body)"
      "cs = chunk_faq did body (meta_of doc)"
  | did rs where "d_id doc = Some did" "d_content doc = Some (Rows rs)"
      "cs = chunk_csv h did rs (meta_of doc)"
  | did where "d_id doc = Some did" "cs = []"
  | did body where "d_id doc = Some did"
      "cs = [\<lparr>doc_id = did, section_id = ''main'', content = body, metadata = meta_of doc\<rparr>]"
proof -
  from assms obtain did c where i: "d_id doc = Some did" and c: "d_content doc = Some c"
    by (auto simp: chunk_document_def Let_def split: option.splits)
  define ty where "ty = (case d_type doc of Some t \<Rightarrow> t | None \<Rightarrow> ''text'')"
  note d = chunk_document_def Let_def meta_of_def ty_def [symmetric]
  consider "ty = ''markdown''" | "ty \<noteq> ''markdown''" "ty = ''faq''"
    | "ty \<noteq> ''markdown''" "ty \<noteq> ''faq''" "ty = ''csv''"
    | "ty \<noteq> ''markdown''" "ty \<noteq> ''faq''" "ty \<noteq> ''csv''"
    by blast
  then show thesis
  proof cases
    case 1
    with assms i c that(1) show ?thesis
      by (cases c) (simp_all add: d)
  next
    case 2
    with assms i c that(2) show ?thesis
      by (cases c) (simp_all add: d)
  next
    case 3
    with assms i c that(3) that(4) show ?thesis
      by (cases c) (simp_all add: d split: if_splits)
  next
    case 4
    with assms i c that(5) show ?thesis
      by (cases c) (auto simp: d)
  qed
qed

lemma chunk_document_keys:
  assumes "chunk_document h doc = Inr cs" and "record_keys_distinct h doc"
  shows "\<exists>did. d_id doc = Some did \<and> (\<forall>c\<in>set cs. doc_id c = did)
          \<and> distinct (map section_id cs)"
  using assms(1)
proof (cases rule: chunk_document_cases)
  case (1 did body)
  then show ?thesis by (simp add: chunk_markdown_distinct chunk_markdown_doc_id)
next
  case (2 did body)
  then show ?thesis by (simp add: chunk_faq_distinct chunk_faq_doc_id)
next
  case (3 did rs)
  with assms(2) have "distinct (map (\<lambda>row. py_str (product_key h row)) rs)"
    by (simp add: record_keys_distinct_def)
  with 3 show ?thesis by (simp add: chunk_csv_distinct chunk_csv_doc_id)
next
  case (4 did)
  then show ?thesis by simp
next
  case (5 did body)
  then show ?thesis by simp
qed

lemma chunks_of_Cons:
  "chunks_of h (doc # docs)
     = (case chunk_document h doc of Inl e \<Rightarrow> [] | Inr cs \<Rightarrow> cs) @ chunks_of h docs"
  by (simp add: chunks_of_def)

lemma load_corpus_all_chunked:
  "load_corpus h st docs = (st', None) \<Longrightarrow> doc \<in> set docs \<Longrightarrow> \<exists>cs. chunk_document h doc = Inr cs"
proof (induction docs arbitrary: st)
  case Nil
  then show ?case by simp
next
  case (Cons d docs)
  then show ?case by (cases "chunk_document h d") auto
qed

lemma chunks_of_doc_ids:
  "c \<in> set (chunks_of h docs) \<Longrightarrow> (\<forall>doc\<in>set docs. record_keys_distinct h doc)
     \<Longrightarrow> Some (doc_id c) \<in> set (map d_id docs)"
proof (induction docs)
  case Nil
  then show ?case by (simp add: chunks_of_def)
next
  case (Cons d docs)
  show ?case
  proof (cases "chunk_document h d")
    case (Inl e)
    with Cons show ?thesis by (simp add: chunks_of_Cons)
  next
    case (Inr cs)
    from chunk_document_keys [OF Inr] Cons.prems(2)
    obtain did where "d_id d = Some did" "\<forall>c\<in>set cs. doc_id c = did" by auto
    with Cons Inr show ?thesis by (auto simp: chunks_of_Cons)
  qed
qed

lemma chunks_of_distinct:
  assumes "\<And>doc. doc \<in> set docs \<Longrightarrow> \<exists>cs. chunk_document h doc = Inr cs"
    and "distinct (map d_id docs)"
    and "\<forall>doc\<in>set docs. record_keys_distinct h doc"
  shows "distinct (map chunk_key (chunks_of h docs))"
  using assms
proof (induction docs)
  case Nil
  show ?case by (simp add: chunks_of_def)
next
  case (Cons d docs)
  from Cons.prems(1) [of d] obtain cs where cs: "chunk_document h d = Inr cs" by auto
  from chunk_document_keys [OF cs] Cons.prems(3)
  obtain did where did: "d_id d = Some did" and ids: "\<forall>c\<in>set cs. doc_id c = did"
    and dist: "distinct (map section_id cs)" by auto
  have a: "distinct (map chunk_key cs)"
    using dist by (rule distinct_map_via) (simp add: chunk_key_def)
  have b: "distinct (map chunk_key (chunks_of h docs))"
    using Cons by simp
  have c: "set (map chunk_key cs) \<inter> set (map chunk_key (chunks_of h docs)) = {}"
  proof (rule ccontr)
    assume "set (map chunk_key cs) \<inter> set (map chunk_key (chunks_of h docs)) \<noteq> {}"
    then obtain k where "k \<in> chunk_key ` set cs" and "k \<in> chunk_key ` set (chunks_of h docs)"
      by auto
    then obtain x y where x: "x \<in> set cs" and y: "y \<in> set (chunks_of h docs)"
      and k: "chunk_key x = chunk_key y" by auto
    from k x ids have "doc_id y = did" by (simp add: chunk_key_def)
    moreover from chunks_of_doc_ids [OF y] Cons.prems(3)
    have "Some (doc_id y) \<in> set (map d_id docs)" by simp
    ultimately show False using Cons.prems(2) did by simp
  qed
  from a b c cs show ?case by (simp add: chunks_of_Cons)
qed

lemma load_namesakes:
  "load_corpus h init [raw_namesakes] = (st, e)
   \<Longrightarrow> e = None \<and> map chunk_key (documents st)
         = [(''p'', ''product_'' @ str_int (h (VStr ''Tea''))),
            (''p'', ''product_'' @ str_int (h (VStr ''Tea'')))]"
  by (auto simp: raw_namesakes_def init_def chunk_document_def chunk_csv_def csv_row_def
      product_key_def dict_get_def chunk_key_def Let_def)

text \<open>C3, as the code has it: nothing in \<^verbatim>\<open>load_corpus\<close> checks keys. When a document
  list is loaded without an exception into a system whose chunk store is empty, the
  documents have pairwise distinct ids, and the records of every tabular document have
  pairwise distinct keys, then no two chunks of the store share the pair
  \<^verbatim>\<open>(doc_id, section_id)\<close>.\<close>

theorem chunk_keys_distinct:
  assumes "load_corpus h st docs = (st', None)"
    and "documents st = []"
    and "distinct (map d_id docs)"
    and "\<forall>doc\<in>set docs. record_keys_distinct h doc"
  shows "distinct (map chunk_key (documents st'))"
proof -
  have "documents st' = chunks_of h docs"
    using load_corpus_documents [OF assms(1)] assms(2) by simp
  moreover have "distinct (map chunk_key (chunks_of h docs))"
    using load_corpus_all_chunked [OF assms(1)] assms(3) assms(4)
    by (rule chunks_of_distinct)
  ultimately show ?thesis by simp
qed

theorem chunk_keys_distinct_witness:
  "snd (load_corpus (\<lambda>v. 0) init [raw_tea, raw_md, raw_products]) = None
   \<and> distinct (map d_id [raw_tea, raw_md, raw_products])
   \<and> list_all (record_keys_distinct (\<lambda>v. 0)) [raw_tea, raw_md, raw_products]
   \<and> map chunk_key (documents (fst (load_corpus (\<lambda>v. 0) init [raw_tea, raw_md, raw_products])))
       = [(''t'', ''main''), (''m'', ''intro''), (''m'', ''section_1_a_b''), (''m'', ''section_2_c''),
          (''p'', ''product_P1''), (''p'', ''product_P2'')]
   \<and> distinct (map chunk_key
         (documents (fst (load_corpus (\<lambda>v. 0) init [raw_tea, raw_md, raw_products]))))"
proof -
  let ?docs = "[raw_tea, raw_md, raw_products]"
  have a: "snd (load_corpus (\<lambda>v. 0) init ?docs) = None" by code_simp
  have b: "distinct (map d_id ?docs)" by code_simp
  have c: "list_all (record_keys_distinct (\<lambda>v. 0)) ?docs" by code_simp
  have d: "map chunk_key (documents (fst (load_corpus (\<lambda>v. 0) init ?docs)))
       = [(''t'', ''main''), (''m'', ''intro''), (''m'', ''section_1_a_b''), (''m'', ''section_2_c''),
          (''p'', ''product_P1''), (''p'', ''product_P2'')]" by code_simp
  have l: "load_corpus (\<lambda>v. 0) init ?docs = (fst (load_corpus (\<lambda>v. 0) init ?docs), None)"
    using a by (simp add: prod_eq_iff)
  have e: "documents init = []" by (simp add: init_def)
  have f: "\<forall>doc\<in>set ?docs. record_keys_distinct (\<lambda>v. 0) doc"
    using c by (simp only: list_all_iff)
  from chunk_keys_distinct [OF l e b f] a b c d show ?thesis by blast
qed

text \<open>C3 as stated fails, in three ways. Two documents with the same id and no declared
  type are both accepted, and each gives the chunk with the key \<^verbatim>\<open>('d', 'main')\<close>. Inside
  one tabular document, two records with the same \<^verbatim>\<open>product_id\<close> both give the key
  \<^verbatim>\<open>('p', 'product_P1')\<close>, and two records with the same name and no \<^verbatim>\<open>product_id\<close> give
  the same key whatever the hash function is.\<close>

theorem unchecked_ids_duplicate_keys:
  "snd (load_corpus (\<lambda>v. 0) init [raw_hello, raw_hello]) = None
   \<and> \<not> distinct (map d_id [raw_hello, raw_hello])
   \<and> list_all (record_keys_distinct (\<lambda>v. 0)) [raw_hello, raw_hello]
   \<and> map chunk_key (documents (fst (load_corpus (\<lambda>v. 0) init [raw_hello, raw_hello])))
       = [(''d'', ''main''), (''d'', ''main'')]
   \<and> \<not> distinct (map chunk_key (documents (fst (load_corpus (\<lambda>v. 0) init [raw_hello, raw_hello]))))
   \<and> snd (load_corpus (\<lambda>v. 0) init [raw_twins]) = None
   \<and> distinct (map d_id [raw_twins])
   \<and> \<not> record_keys_distinct (\<lambda>v. 0) raw_twins
   \<and> map chunk_key (documents (fst (load_corpus (\<lambda>v. 0) init [raw_twins])))
       = [(''p'', ''product_P1''), (''p'', ''product_P1'')]
   \<and> \<not> distinct (map chunk_key (documents (fst (load_corpus (\<lambda>v. 0) init [raw_twins]))))
   \<and> snd (load_corpus (\<lambda>v. 0) init [raw_namesakes]) = None
   \<and> distinct (map d_id [raw_namesakes])
   \<and> \<not> record_keys_distinct (\<lambda>v. 0) raw_namesakes
   \<and> map chunk_key (documents (fst (load_corpus (\<lambda>v. 0) init [raw_namesakes])))
       = [(''p'', ''product_0''), (''p'', ''product_0'')]
   \<and> \<not> distinct (map chunk_key (documents (fst (load_corpus (\<lambda>v. 0) init [raw_namesakes]))))
   \<and> (\<forall>h. \<not> distinct (map chunk_key (documents (fst (load_corpus h init [raw_namesakes])))))"
proof -
  have a: "snd (load_corpus (\<lambda>v. 0) init [raw_hello, raw_hello]) = None" by code_simp
  have a': "\<not> distinct (map d_id [raw_hello, raw_hello])" by simp
  have b: "list_all (record_keys_distinct (\<lambda>v. 0)) [raw_hello, raw_hello]" by code_simp
  have c: "map chunk_key (documents (fst (load_corpus (\<lambda>v. 0) init [raw_hello, raw_hello])))
       = [(''d'', ''main''), (''d'', ''main'')]" by code_simp
  have c': "\<not> distinct (map chunk_key
       (documents (fst (load_corpus (\<lambda>v. 0) init [raw_hello, raw_hello]))))"
    unfolding c by simp
  have d: "snd (load_corpus (\<lambda>v. 0) init [raw_twins]) = None" by code_simp
  have e: "distinct (map d_id [raw_twins])" by simp
  have e': "\<not> record_keys_distinct (\<lambda>v. 0) raw_twins" by code_simp
  have f: "map chunk_key (documents (fst (load_corpus (\<lambda>v. 0) init [raw_twins])))
       = [(''p'', ''product_P1''), (''p'', ''product_P1'')]" by code_simp
  have f': "\<not> distinct (map chunk_key (documents (fst (load_corpus (\<lambda>v. 0) init [raw_twins]))))"
    unfolding f by simp
  have g: "snd (load_corpus (\<lambda>v. 0) init [raw_namesakes]) = None" by code_simp
  have g': "distinct (map d_id [raw_namesakes])" by simp
  have g'': "\<not> record_keys_distinct (\<lambda>v. 0) raw_namesakes" by code_simp
  have i: "map chunk_key (documents (fst (load_corpus (\<lambda>v. 0) init [raw_namesakes])))
       = [(''p'', ''product_0''), (''p'', ''product_0'')]" by code_simp
  have j: "\<not> distinct (map chunk_key (documents (fst (load_corpus h init [raw_namesakes]))))"
    for h
    using load_namesakes [of h "fst (load_corpus h init [raw_namesakes])"
        "snd (load_corpus h init [raw_namesakes])"] by simp
  have i': "\<not> distinct (map chunk_key
       (documents (fst (load_corpus (\<lambda>v. 0) init [raw_namesakes]))))"
    by (rule j)
  from a a' b c c' d e e' f f' g g' g'' i i' j show ?thesis by simp
qed

section \<open>Runs with different string hashes\<close>

lemma product_key_agree:
  "truthy (dict_get row ''product_id'' VNone)
     \<or> h1 (dict_get row ''name'' (VStr [])) = h2 (dict_get row ''name'' (VStr []))
   \<Longrightarrow> product_key h1 row = product_key h2 row"
  by (auto simp: product_key_def Let_def)

lemma chunk_csv_agree:
  assumes "list_all (\<lambda>row. truthy (dict_get row ''product_id'' VNone)
        \<or> h1 (dict_get row ''name'' (VStr [])) = h2 (dict_get row ''name'' (VStr []))) rs"
  shows "chunk_csv h1 did rs meta = chunk_csv h2 did rs meta"
  unfolding chunk_csv_def
proof (rule map_cong)
  show "rs = rs" ..
next
  fix row
  assume "row \<in> set rs"
  with assms have "product_key h1 row = product_key h2 row"
    by (simp add: list_all_iff product_key_agree)
  then show "csv_row h1 did meta row = csv_row h2 did meta row"
    by (simp add: csv_row_def)
qed

lemma chunk_document_agree:
  assumes "hashes_agree h1 h2 doc"
  shows "chunk_document h1 doc = chunk_document h2 doc"
proof (cases "d_content doc")
  case None
  then show ?thesis by (simp add: chunk_document_def Let_def split: option.splits)
next
  case (Some c)
  show ?thesis
  proof (cases c)
    case (Text s)
    with Some show ?thesis by (simp add: chunk_document_def Let_def split: option.splits)
  next
    case (Rows rs)
    with Some assms have "chunk_csv h1 did rs meta = chunk_csv h2 did rs meta" for did meta
      by (simp add: hashes_agree_def chunk_csv_agree)
    with Some Rows show ?thesis by (simp add: chunk_document_def Let_def split: option.splits)
  qed
qed

lemma load_corpus_agree:
  "\<forall>doc\<in>set docs. hashes_agree h1 h2 doc \<Longrightarrow> load_corpus h1 st docs = load_corpus h2 st docs"
proof (induction docs arbitrary: st)
  case Nil
  show ?case by simp
next
  case (Cons d docs)
  then have "chunk_document h1 d = chunk_document h2 d" by (simp add: chunk_document_agree)
  with Cons show ?case by (simp split: sum.splits)
qed

text \<open>C6, as the code has it: the section id of a tabular record without a true
  \<^verbatim>\<open>product_id\<close> is \<^verbatim>\<open>str(hash(name))\<close>, and Python salts the hash of a string anew in
  every process. For a fixed document list and a fixed query, two runs that load the
  documents into a new system and call \<^verbatim>\<open>answer_user_query\<close> give the same store and the
  same result when their hash functions give the same value for the name of every such
  record: always within one process, and in any two processes when every tabular record
  has a \<^verbatim>\<open>product_id\<close>.\<close>

theorem answer_same_across_hashes:
  assumes "\<forall>doc\<in>set docs. hashes_agree h1 h2 doc"
  shows "load_corpus h1 init docs = load_corpus h2 init docs
       \<and> answer_user_query (fst (load_corpus h1 init docs)) query
         = answer_user_query (fst (load_corpus h2 init docs)) query"
  using load_corpus_agree [OF assms] by simp


theorem answer_same_across_hashes_witness:
  "list_all (hashes_agree (\<lambda>v. 1) (\<lambda>v. 2)) [raw_tea, raw_products]
   \<and> list_all (\<lambda>h. map chunk_key (documents (fst (load_corpus h init [raw_tea, raw_products])))
          = [(''t'', ''main''), (''p'', ''product_P1''), (''p'', ''product_P2'')])
        [\<lambda>v. 1, \<lambda>v. 2]
   \<and> answer_user_query (fst (load_corpus (\<lambda>v. 1) init [raw_tea, raw_products])) ''tea''
     = answer_user_query (fst (load_corpus (\<lambda>v. 2) init [raw_tea, raw_products])) ''tea''"
proof -
  have a: "list_all (hashes_agree (\<lambda>v. 1) (\<lambda>v. 2)) [raw_tea, raw_products]" by code_simp
  then have b: "\<forall>doc\<in>set [raw_tea, raw_products]. hashes_agree (\<lambda>v. 1) (\<lambda>v. 2) doc"
    by (simp only: list_all_iff)
  have c: "list_all (\<lambda>h. map chunk_key (documents (fst (load_corpus h init [raw_tea, raw_products])))
          = [(''t'', ''main''), (''p'', ''product_P1''), (''p'', ''product_P2'')])
        [\<lambda>v. 1, \<lambda>v. 2]" by code_simp
  from answer_same_across_hashes [OF b, of "''tea''"] a c show ?thesis by blast
qed

lemma generate_answer_total: "retrieved \<noteq> [] \<Longrightarrow> \<exists>a. generate_answer retrieved = Inr a"
  by (cases retrieved) (auto simp: generate_answer_def Let_def)

lemma answer_citations:
  assumes "retrieve st query 4 \<noteq> []"
  shows "\<exists>r. answer_user_query st query = Inr r
           \<and> citations r = map (\<lambda>(doc, score). citation_of doc) (retrieve st query 4)"
proof -
  from generate_answer_total [OF assms] obtain a
    where "generate_answer (retrieve st query 4) = Inr a" ..
  with assms show ?thesis by (simp add: answer_user_query_def Let_def)
qed

lemma answer_user_query_returns: "\<exists>r. answer_user_query st query = Inr r"
proof (cases "retrieve st query 4 = []")
  case True
  then show ?thesis by (simp add: answer_user_query_def)
next
  case False
  from answer_citations [OF this] show ?thesis by blast
qed

lemma load_unnamed:
  "load_corpus h init [raw_unnamed_id]
     = (\<lparr>documents = [tea_row_chunk (''product_'' @ str_int (h (VStr ''Tea'')))],
         corpus_loaded = True\<rparr>, None)"
  by (simp add: init_def raw_unnamed_id_def chunk_document_def chunk_csv_def csv_row_def
      product_key_def dict_get_def tea_row_def tea_row_chunk_def dict_merge_def Let_def)

lemma retrieve_single_positive:
  assumes "0 < score_document d (tokenize (lower query)) (lower query)"
  shows "map fst (retrieve \<lparr>documents = [d], corpus_loaded = True\<rparr> query 4) = [d]"
  using assms by (simp add: retrieve_def Let_def slice_to_def)

lemma score_document_fields:
  "content d = content d' \<Longrightarrow> metadata d = metadata d'
     \<Longrightarrow> score_document d qt qr = score_document d' qt qr"
  by (simp add: score_document_def Let_def)

lemma tea_row_score_closed:
  "0 < score_document (tea_row_chunk []) (tokenize (lower ''tea'')) (lower ''tea'')"
  by code_simp

lemma tea_row_score:
  "0 < score_document (tea_row_chunk sid) (tokenize (lower ''tea'')) (lower ''tea'')"
  using score_document_fields [of "tea_row_chunk sid" "tea_row_chunk []"] tea_row_score_closed
  by (simp add: tea_row_chunk_def)

lemma answer_tea_row:
  "\<exists>r. answer_user_query (fst (load_corpus h init [raw_unnamed_id])) ''tea'' = Inr r
     \<and> map Citation.section_id (citations r) = [''product_'' @ str_int (h (VStr ''Tea''))]"
proof -
  define sid where "sid = ''product_'' @ str_int (h (VStr ''Tea''))"
  define st where "st = \<lparr>documents = [tea_row_chunk sid], corpus_loaded = True\<rparr>"
  have l: "fst (load_corpus h init [raw_unnamed_id]) = st"
    by (simp only: load_unnamed fst_conv st_def sid_def)
  have "0 < score_document (tea_row_chunk sid) (tokenize (lower ''tea'')) (lower ''tea'')"
    by (rule tea_row_score)
  then have r: "map fst (retrieve st ''tea'' 4) = [tea_row_chunk sid]"
    unfolding st_def by (rule retrieve_single_positive)
  then have "retrieve st ''tea'' 4 \<noteq> []" by auto
  from answer_citations [OF this] obtain res where a: "answer_user_query st ''tea'' = Inr res"
    and c: "citations res = map (\<lambda>(doc, score). citation_of doc) (retrieve st ''tea'' 4)"
    by blast
  have "map Citation.section_id (citations res) = map section_id (map fst (retrieve st ''tea'' 4))"
    unfolding c by (simp add: citation_of_def case_prod_unfold)
  also have "\<dots> = [sid]" unfolding r by (simp add: tea_row_chunk_def)
  finally show ?thesis using a unfolding l sid_def by (intro exI conjI)
qed

text \<open>C6 as stated fails: for the table whose one record has the name \<^verbatim>\<open>Tea\<close> and no
  \<^verbatim>\<open>product_id\<close>, and the query \<^verbatim>\<open>tea\<close>, a run in which the hash of the name is 1
  cites the section \<^verbatim>\<open>product_1\<close> and a run in which it is 2 cites \<^verbatim>\<open>product_2\<close>.\<close>

theorem answer_differs_across_hashes:
  "answer_user_query (fst (load_corpus (\<lambda>v. 1) init [raw_unnamed_id])) ''tea''
     \<noteq> answer_user_query (fst (load_corpus (\<lambda>v. 2) init [raw_unnamed_id])) ''tea''"
proof -
  have one: "str_int 1 = ''1''" and two: "str_int 2 = ''2''" by code_simp+
  from answer_tea_row [of "\<lambda>v. 1"] obtain r1 where
    a1: "answer_user_query (fst (load_corpus (\<lambda>v. 1) init [raw_unnamed_id])) ''tea'' = Inr r1"
    and c1: "map Citation.section_id (citations r1) = [''product_1'']"
    by (auto simp: one)
  from answer_tea_row [of "\<lambda>v. 2"] obtain r2 where
    a2: "answer_user_query (fst (load_corpus (\<lambda>v. 2) init [raw_unnamed_id])) ''tea'' = Inr r2"
    and c2: "map Citation.section_id (citations r2) = [''product_2'']"
    by (auto simp: two)
  from c1 c2 have "r1 \<noteq> r2" by auto
  with a1 a2 show ?thesis by simp
qed

end
